theory Spec2Isabelle
  imports Main "HOL-Library.AList" "HOL-Library.Sublist"
begin

section \<open>The program\<close>

subsection \<open>Values and errors\<close>

text \<open>
  The exceptions the engine can raise. A function that can raise returns \<open>error + 'a\<close>, with
  \<open>Inl\<close> for the exception.
\<close>

datatype error = ValueError | KeyError | AttributeError | TypeError | StopIteration

text \<open>
  Workflow definitions, payloads and response bodies are the trees that \<^verbatim>\<open>json.load\<close> builds:
  a dict is an association list in insertion order (with distinct keys, see \<open>wf_json\<close>), a
  Python \<^verbatim>\<open>str\<close> is a list of characters with code points below 256, a number is an
  integer. Numbers with a fraction or an exponent and characters beyond Latin-1 are outside the
  model. Values are compared structurally, which is Python's \<^verbatim>\<open>==\<close> on these trees except
  that Python also equates \<^verbatim>\<open>True\<close> with 1 and \<^verbatim>\<open>False\<close> with 0.
\<close>

datatype json =
    JNull
  | JBool bool
  | JInt int
  | JStr string
  | JArr "json list"
  | JObj "(string \<times> json) list"

text \<open>Python's truth value of a value, as \<^verbatim>\<open>if x:\<close> and \<^verbatim>\<open>x and y\<close> read it.\<close>

fun truthy :: "json \<Rightarrow> bool" where
  "truthy JNull = False"
| "truthy (JBool b) = b"
| "truthy (JInt n) = (n \<noteq> 0)"
| "truthy (JStr s) = (s \<noteq> [])"
| "truthy (JArr xs) = (xs \<noteq> [])"
| "truthy (JObj kv) = (kv \<noteq> [])"

text \<open>A list or a dict cannot be looked up in a dict: Python raises \<^verbatim>\<open>TypeError\<close>.\<close>

fun hashable :: "json \<Rightarrow> bool" where
  "hashable (JArr xs) = False"
| "hashable (JObj kv) = False"
| "hashable v = True"

text \<open>\<^verbatim>\<open>d.get(k, dflt)\<close> and \<^verbatim>\<open>k in d\<close> on a dict.\<close>

definition dict_get :: "(string \<times> json) list \<Rightarrow> string \<Rightarrow> json \<Rightarrow> json" where
  "dict_get d k dflt = (case map_of d k of Some v \<Rightarrow> v | None \<Rightarrow> dflt)"

definition has_key :: "(string \<times> json) list \<Rightarrow> string \<Rightarrow> bool" where
  "has_key d k \<longleftrightarrow> k \<in> set (map fst d)"

text \<open>A loop over a list whose body can raise: the first exception ends it.\<close>

fun map_err :: "('a \<Rightarrow> error + 'b) \<Rightarrow> 'a list \<Rightarrow> error + 'b list" where
  "map_err f [] = Inr []"
| "map_err f (x # xs) =
     (case f x of Inl e \<Rightarrow> Inl e
      | Inr y \<Rightarrow> (case map_err f xs of Inl e \<Rightarrow> Inl e | Inr ys \<Rightarrow> Inr (y # ys)))"

subsection \<open>Strings\<close>

text \<open>\<^verbatim>\<open>s.split(' ')\<close>, and the first element of a list of pieces.\<close>

fun split_space :: "string \<Rightarrow> string list" where
  "split_space [] = [[]]"
| "split_space (c # cs) =
     (if c = CHR '' '' then [] # split_space cs
      else (case split_space cs of [] \<Rightarrow> [[c]] | p # ps \<Rightarrow> (c # p) # ps))"

definition first_piece :: "string list \<Rightarrow> string" where
  "first_piece ps = (case ps of [] \<Rightarrow> [] | p # _ \<Rightarrow> p)"

text \<open>\<^verbatim>\<open>x.split(' ')[0] if ' ' in x else x\<close>, applied to credential names and mapping keys.\<close>

definition base_name_of :: "string \<Rightarrow> string" where
  "base_name_of x = (if CHR '' '' \<in> set x then first_piece (split_space x) else x)"

text \<open>
  \<^verbatim>\<open>str.lower\<close> on code points below 256: the letters A to Z and the accented capitals of
  Latin-1 (192 to 222, without the multiplication sign 215) move up by 32.
\<close>

definition lower_char :: "char \<Rightarrow> char" where
  "lower_char c =
     (let n = (of_char c :: nat) in
      if (65 \<le> n \<and> n \<le> 90) \<or> (192 \<le> n \<and> n \<le> 222 \<and> n \<noteq> 215)
      then char_of (n + 32) else c)"

definition lower :: "string \<Rightarrow> string" where
  "lower s = map lower_char s"

text \<open>
  \<^verbatim>\<open>s.replace(old, new)\<close>: every occurrence of \<open>old\<close>, from the left and without overlap; an
  empty \<open>old\<close> puts \<open>new\<close> before every character and at the end.
\<close>

function replace_from :: "string \<Rightarrow> string \<Rightarrow> string \<Rightarrow> string" where
  "replace_from old new [] = []"
| "replace_from old new (c # cs) =
     (if old \<noteq> [] \<and> prefix old (c # cs)
      then new @ replace_from old new (drop (length old) (c # cs))
      else c # replace_from old new cs)"
  by pat_completeness auto
termination
  by (relation "measure (\<lambda>(old, new, s). length s)") auto

definition py_replace :: "string \<Rightarrow> string \<Rightarrow> string \<Rightarrow> string" where
  "py_replace old new s =
     (if old = [] then new @ concat (map (\<lambda>c. c # new) s) else replace_from old new s)"


subsection \<open>Topological order resolver\<close>

text \<open>
  A dependency graph is a Python dict from a workflow identifier to the list of identifiers it
  invokes: an association list in insertion order, whose keys are distinct.
\<close>

type_synonym 'a graph = "('a \<times> 'a list) list"

text \<open>
  The comprehension of \<^verbatim>\<open>get_workflow_order\<close>: the identifiers of \<open>remaining\<close>, in its order,
  none of whose dependencies is still a key of \<open>remaining\<close>.
\<close>

definition ready_ids :: "'a graph \<Rightarrow> 'a list" where
  "ready_ids remaining =
     map fst (filter (\<lambda>(workflow_id, deps).
       \<not> list_ex (\<lambda>dep. dep \<in> set (map fst remaining)) deps) remaining)"

text \<open>
  The \<^verbatim>\<open>while remaining\<close> loop. Each round deletes the ready identifiers one by one
  (\<^verbatim>\<open>del remaining[workflow_id]\<close>); an empty round raises \<^verbatim>\<open>ValueError\<close>.
\<close>

function order_loop :: "'a graph \<Rightarrow> 'a list \<Rightarrow> error + 'a list" where
  "order_loop remaining order =
     (if remaining = [] then Inr order
      else let ready = ready_ids remaining in
        if ready = [] then Inl ValueError
        else order_loop (fold AList.delete ready remaining) (order @ ready))"
  by pat_completeness auto
termination
proof (relation "measure (\<lambda>(remaining, order). length remaining)")
  show "wf (measure (\<lambda>(remaining :: 'a graph, order :: 'a list). length remaining))"
    by simp
next
  fix remaining :: "'a graph" and order ready :: "'a list"
  assume ready: "ready = ready_ids remaining" and nonempty: "ready \<noteq> []"
  have del: "fold AList.delete ks xs = filter (\<lambda>p. fst p \<notin> set ks) xs"
    for ks and xs :: "'a graph"
  proof (induction ks arbitrary: xs)
    case Nil
    show ?case by simp
  next
    case (Cons k ks)
    have "AList.delete k xs = filter (\<lambda>p. k \<noteq> fst p) xs"
      by (simp add: AList.delete_eq case_prod_unfold)
    then show ?case using Cons by (auto intro: filter_cong)
  qed
  from nonempty obtain w where w: "w \<in> set ready" by (cases ready) auto
  then obtain p where p: "p \<in> set remaining" "fst p = w"
    unfolding ready ready_ids_def by auto
  have "length (filter (\<lambda>p. fst p \<notin> set ready) remaining) < length remaining"
    using p w by (intro length_filter_less [of p]) auto
  then show "((fold AList.delete ready remaining, order @ ready), (remaining, order))
      \<in> measure (\<lambda>(remaining, order). length remaining)"
    by (simp add: del)
qed

definition get_workflow_order :: "'a graph \<Rightarrow> error + 'a list" where
  "get_workflow_order graph = order_loop graph []"

text \<open>
  The ordering constraints of a graph: \<open>(d, w)\<close> when \<open>w\<close> lists \<open>d\<close> as a dependency and
  \<open>d\<close> is itself a key. A graph has a cycle among its keys when this relation is not acyclic.
\<close>

definition dep_rel :: "'a graph \<Rightarrow> ('a \<times> 'a) set" where
  "dep_rel g = {(d, w). \<exists>deps. (w, deps) \<in> set g \<and> d \<in> set deps \<and> d \<in> fst ` set g}"

definition placed_before :: "'a \<Rightarrow> 'a \<Rightarrow> 'a list \<Rightarrow> bool" where
  "placed_before d w order \<longleftrightarrow> d \<in> set (takeWhile (\<lambda>x. x \<noteq> w) order)"

text \<open>
  The workflows that are ready once the identifiers in \<open>placed\<close> have been emitted: not yet
  placed, and every dependency that is a key of the graph already placed; listed in the
  insertion order of the graph.
\<close>

definition ready_after :: "'a graph \<Rightarrow> 'a set \<Rightarrow> 'a list" where
  "ready_after g placed =
     map fst (filter (\<lambda>(w, deps). w \<notin> placed \<and>
       (\<forall>d\<in>set deps. d \<in> fst ` set g \<longrightarrow> d \<in> placed)) g)"

subsection \<open>Rewrite engine: settings, credentials, sub-workflow identifiers\<close>

text \<open>
  The steps of \<^verbatim>\<open>create_workflow\<close> that follow the literal replacement. They change the
  payload in place; the payload is a tree, so each step is a function from the payload to the
  updated payload. A method called on a value of the wrong type raises: \<^verbatim>\<open>.get\<close> and
  \<^verbatim>\<open>.items\<close> exist on dicts only, \<^verbatim>\<open>.split\<close> and \<^verbatim>\<open>.lower\<close> on strings only.
\<close>

text \<open>
  The two node types that invoke a sub-workflow.
\<close>

definition exec_type :: string where
  "exec_type = ''n8n-nodes-base.executeWorkflow''"

definition tool_type :: string where
  "tool_type = ''@n8n/n8n-nodes-langchain.toolWorkflow''"

text \<open>
  \<^verbatim>\<open>workflow_payload.update\<close> with the new settings: the five keys, each read from the
  settings of the payload with its default. \<^verbatim>\<open>workflow_payload.get('settings', {})\<close> must be
  a dict for the inner \<^verbatim>\<open>.get\<close>.
\<close>

definition normalize_settings :: "(string \<times> json) list \<Rightarrow> error + (string \<times> json) list" where
  "normalize_settings workflow_payload =
     (case dict_get workflow_payload ''settings'' (JObj []) of
        JObj settings \<Rightarrow>
          Inr (AList.update ''settings'' (JObj [
            (''saveExecutionProgress'', dict_get settings ''saveExecutionProgress'' (JBool True)),
            (''saveManualExecutions'', dict_get settings ''saveManualExecutions'' (JBool True)),
            (''saveDataErrorExecution'', dict_get settings ''saveDataErrorExecution'' (JStr ''all'')),
            (''executionTimeout'', dict_get settings ''executionTimeout'' (JInt 3600)),
            (''errorWorkflow'', dict_get settings ''errorWorkflow'' (JStr []))])
            workflow_payload)
      | _ \<Rightarrow> Inl AttributeError)"

text \<open>
  The loop over \<^verbatim>\<open>credential_mapping.items()\<close>: the id of the first key whose base name
  equals the base name of the node's credential, both in lower case, the key also with its
  underscores replaced by spaces; \<open>JNull\<close> (Python's \<^verbatim>\<open>None\<close>) when no key fits.
\<close>

fun find_matching_cred :: "(string \<times> json) list \<Rightarrow> string \<Rightarrow> json" where
  "find_matching_cred [] base_name = JNull"
| "find_matching_cred ((cred_key, new_id) # rest) base_name =
     (let cred_base_name = base_name_of cred_key in
      if lower cred_base_name = lower base_name
         \<or> lower (py_replace ''_'' '' '' cred_base_name) = lower base_name
      then new_id
      else find_matching_cred rest base_name)"

text \<open>
  One entry of a node's \<^verbatim>\<open>credentials\<close>. The id is set when the match is truthy. A name
  that is not a string raises in \<^verbatim>\<open>' ' in old_name\<close> (not iterable), in \<^verbatim>\<open>.split\<close>, or in
  \<^verbatim>\<open>.lower\<close> at the first key of the mapping.
\<close>

definition resolve_credential :: "(string \<times> json) list \<Rightarrow> json \<Rightarrow> error + json" where
  "resolve_credential credential_mapping cred_data =
     (case cred_data of
        JObj cd \<Rightarrow>
          (case dict_get cd ''name'' (JStr []) of
             JStr old_name \<Rightarrow>
               (let matching_cred = find_matching_cred credential_mapping (base_name_of old_name) in
                if truthy matching_cred then Inr (JObj (AList.update ''id'' matching_cred cd))
                else Inr cred_data)
           | JArr xs \<Rightarrow>
               if JStr '' '' \<in> set xs \<or> credential_mapping \<noteq> [] then Inl AttributeError
               else Inr cred_data
           | JObj m \<Rightarrow>
               if has_key m '' '' \<or> credential_mapping \<noteq> [] then Inl AttributeError
               else Inr cred_data
           | _ \<Rightarrow> Inl TypeError)
      | _ \<Rightarrow> Inl AttributeError)"

text \<open>
  \<^verbatim>\<open>if 'credentials' in node: for cred_type, cred_data in node['credentials'].items()\<close>.
\<close>

definition resolve_node_credentials ::
  "(string \<times> json) list \<Rightarrow> (string \<times> json) list \<Rightarrow> error + (string \<times> json) list" where
  "resolve_node_credentials credential_mapping node =
     (if has_key node ''credentials'' then
        (case dict_get node ''credentials'' JNull of
           JObj creds \<Rightarrow>
             (case map_err (\<lambda>(cred_type, cred_data).
                       case resolve_credential credential_mapping cred_data of
                         Inl e \<Rightarrow> Inl e | Inr cd \<Rightarrow> Inr (cred_type, cd)) creds of
                Inl e \<Rightarrow> Inl e
              | Inr creds' \<Rightarrow> Inr (AList.update ''credentials'' (JObj creds') node))
         | _ \<Rightarrow> Inl AttributeError)
      else Inr node)"

text \<open>
  The object shape \<^verbatim>\<open>{value, cachedResultName}\<close> of a sub-workflow reference:
  \<^verbatim>\<open>if old_id and old_id in sf_id_mapping\<close>, then the value is replaced and a
  \<^verbatim>\<open>cachedResultName\<close> is cut to \<^verbatim>\<open>.split(' ')[0]\<close>.
\<close>

definition remap_object ::
  "(json \<times> json) list \<Rightarrow> (string \<times> json) list \<Rightarrow> error + (string \<times> json) list" where
  "remap_object sf_id_mapping old_workflow_id =
     (let old_id = dict_get old_workflow_id ''value'' JNull in
      if \<not> truthy old_id then Inr old_workflow_id
      else if \<not> hashable old_id then Inl TypeError
      else (case map_of sf_id_mapping old_id of
              None \<Rightarrow> Inr old_workflow_id
            | Some new_id \<Rightarrow>
                (let updated = AList.update ''value'' new_id old_workflow_id in
                 if has_key updated ''cachedResultName'' then
                   (case dict_get updated ''cachedResultName'' JNull of
                      JStr cached \<Rightarrow>
                        Inr (AList.update ''cachedResultName''
                               (JStr (first_piece (split_space cached))) updated)
                    | _ \<Rightarrow> Inl AttributeError)
                 else Inr updated)))"

text \<open>
  The assignment to \<^verbatim>\<open>params['workflowId']\<close>, or into the object stored there, seen from the
  node: \<^verbatim>\<open>params\<close> is the node's own \<^verbatim>\<open>parameters\<close> dict whenever a reference was found.
\<close>

definition set_workflow_id ::
  "json \<Rightarrow> (string \<times> json) list \<Rightarrow> (string \<times> json) list \<Rightarrow> (string \<times> json) list" where
  "set_workflow_id v params node =
     AList.update ''parameters'' (JObj (AList.update ''workflowId'' v params)) node"

text \<open>
  The branch for \<^verbatim>\<open>n8n-nodes-base.executeWorkflow\<close>: a string id that is a key of the mapping
  is replaced; an object is remapped as above.
\<close>

definition remap_execute_workflow ::
  "(json \<times> json) list \<Rightarrow> (string \<times> json) list \<Rightarrow> error + (string \<times> json) list" where
  "remap_execute_workflow sf_id_mapping node =
     (case dict_get node ''parameters'' (JObj []) of
        JObj params \<Rightarrow>
          (case dict_get params ''workflowId'' JNull of
             JStr old_workflow_id \<Rightarrow>
               (case map_of sf_id_mapping (JStr old_workflow_id) of
                  Some new_id \<Rightarrow> Inr (set_workflow_id new_id params node)
                | None \<Rightarrow> Inr node)
           | JObj old_workflow_id \<Rightarrow>
               (case remap_object sf_id_mapping old_workflow_id of
                  Inl e \<Rightarrow> Inl e
                | Inr obj \<Rightarrow> Inr (set_workflow_id (JObj obj) params node))
           | _ \<Rightarrow> Inr node)
      | _ \<Rightarrow> Inl AttributeError)"

text \<open>
  The branch for \<^verbatim>\<open>@n8n/n8n-nodes-langchain.toolWorkflow\<close>: only the object shape is read.
\<close>

definition remap_tool_workflow ::
  "(json \<times> json) list \<Rightarrow> (string \<times> json) list \<Rightarrow> error + (string \<times> json) list" where
  "remap_tool_workflow sf_id_mapping node =
     (case dict_get node ''parameters'' (JObj []) of
        JObj params \<Rightarrow>
          (case dict_get params ''workflowId'' JNull of
             JObj old_workflow_id \<Rightarrow>
               (case remap_object sf_id_mapping old_workflow_id of
                  Inl e \<Rightarrow> Inl e
                | Inr obj \<Rightarrow> Inr (set_workflow_id (JObj obj) params node))
           | _ \<Rightarrow> Inr node)
      | _ \<Rightarrow> Inl AttributeError)"

text \<open>
  The \<^verbatim>\<open>if\<close>/\<^verbatim>\<open>elif\<close> on the node type; \<^verbatim>\<open>and sf_id_mapping\<close> is false for an empty mapping.
\<close>

definition remap_node ::
  "(json \<times> json) list \<Rightarrow> (string \<times> json) list \<Rightarrow> error + (string \<times> json) list" where
  "remap_node sf_id_mapping node =
     (if dict_get node ''type'' JNull = JStr exec_type \<and> sf_id_mapping \<noteq> []
      then remap_execute_workflow sf_id_mapping node
      else if dict_get node ''type'' JNull = JStr tool_type \<and> sf_id_mapping \<noteq> []
      then remap_tool_workflow sf_id_mapping node
      else Inr node)"

text \<open>
  The body of \<^verbatim>\<open>for node in workflow_payload['nodes']\<close>. A node that is not a dict raises at
  \<^verbatim>\<open>'credentials' in node\<close>, at \<^verbatim>\<open>node['credentials']\<close> or at \<^verbatim>\<open>node.get\<close>.
\<close>

definition rewrite_node ::
  "(string \<times> json) list \<Rightarrow> (json \<times> json) list \<Rightarrow> json \<Rightarrow> error + json" where
  "rewrite_node credential_mapping sf_id_mapping node_value =
     (case node_value of
        JObj node \<Rightarrow>
          (case resolve_node_credentials credential_mapping node of
             Inl e \<Rightarrow> Inl e
           | Inr node1 \<Rightarrow>
               (case remap_node sf_id_mapping node1 of
                  Inl e \<Rightarrow> Inl e
                | Inr node2 \<Rightarrow> Inr (JObj node2)))
      | JStr s \<Rightarrow> if sublist ''credentials'' s then Inl TypeError else Inl AttributeError
      | JArr xs \<Rightarrow> if JStr ''credentials'' \<in> set xs then Inl TypeError else Inl AttributeError
      | _ \<Rightarrow> Inl TypeError)"

text \<open>
  The loop over the nodes. Iterating a non-empty dict or string yields strings, on which
  the body raises; a number, a Boolean or \<^verbatim>\<open>None\<close> is not iterable.
\<close>

definition rewrite_nodes ::
  "(string \<times> json) list \<Rightarrow> (json \<times> json) list \<Rightarrow> (string \<times> json) list
     \<Rightarrow> error + (string \<times> json) list" where
  "rewrite_nodes credential_mapping sf_id_mapping workflow_payload =
     (if has_key workflow_payload ''nodes'' then
        (case dict_get workflow_payload ''nodes'' JNull of
           JArr nodes \<Rightarrow>
             (case map_err (rewrite_node credential_mapping sf_id_mapping) nodes of
                Inl e \<Rightarrow> Inl e
              | Inr nodes' \<Rightarrow> Inr (AList.update ''nodes'' (JArr nodes') workflow_payload))
         | JObj [] \<Rightarrow> Inr workflow_payload
         | JObj ((k, v) # rest) \<Rightarrow>
             if sublist ''credentials'' k then Inl TypeError else Inl AttributeError
         | JStr [] \<Rightarrow> Inr workflow_payload
         | JStr (c # cs) \<Rightarrow> Inl AttributeError
         | _ \<Rightarrow> Inl TypeError)
      else Inr workflow_payload)"

text \<open>
  The dict \<^verbatim>\<open>create_payload\<close>: subscripting a missing key raises \<^verbatim>\<open>KeyError\<close>.
\<close>

definition create_payload :: "(string \<times> json) list \<Rightarrow> error + json" where
  "create_payload workflow_payload =
     (if has_key workflow_payload ''name'' \<and> has_key workflow_payload ''nodes''
         \<and> has_key workflow_payload ''connections''
      then Inr (JObj [
        (''name'', dict_get workflow_payload ''name'' JNull),
        (''nodes'', dict_get workflow_payload ''nodes'' JNull),
        (''connections'', dict_get workflow_payload ''connections'' JNull),
        (''settings'', dict_get workflow_payload ''settings'' (JObj []))])
      else Inl KeyError)"

text \<open>
  Settings, nodes, payload, in this order, on the definition the literal replacement produced.
\<close>

definition rewrite_payload ::
  "(string \<times> json) list \<Rightarrow> (json \<times> json) list \<Rightarrow> json \<Rightarrow> error + json" where
  "rewrite_payload credential_mapping sf_id_mapping workflow_payload =
     (case workflow_payload of
        JObj payload \<Rightarrow>
          (case normalize_settings payload of
             Inl e \<Rightarrow> Inl e
           | Inr payload1 \<Rightarrow>
               (case rewrite_nodes credential_mapping sf_id_mapping payload1 of
                  Inl e \<Rightarrow> Inl e
                | Inr payload2 \<Rightarrow> create_payload payload2))
      | _ \<Rightarrow> Inl AttributeError)"

subsection \<open>Serialisation and parsing of JSON text\<close>

text \<open>
  \<^verbatim>\<open>json.dumps\<close> and \<^verbatim>\<open>json.loads\<close> of the Python library, with their default arguments,
  on the values of the model. \<^verbatim>\<open>json.dumps\<close> separates items by a comma and a space and keys
  from values by a colon and a space, and writes every character outside the printable ASCII
  range, the double quote and the backslash as an escape.
\<close>

definition dq :: char where "dq = CHR 0x22"
definition bs :: char where "bs = CHR 0x5C"

definition hex_digit :: "nat \<Rightarrow> char" where
  "hex_digit n = (if n < 10 then char_of (48 + n) else char_of (87 + n))"

definition escape_char :: "char \<Rightarrow> string" where
  "escape_char c =
     (if c = dq then [bs, dq]
      else if c = bs then [bs, bs]
      else if c = CHR 0x0A then [bs, CHR ''n'']
      else if c = CHR 0x0D then [bs, CHR ''r'']
      else if c = CHR 0x09 then [bs, CHR ''t'']
      else if c = CHR 0x0C then [bs, CHR ''f'']
      else if c = CHR 0x08 then [bs, CHR ''b'']
      else if (of_char c :: nat) < 32 \<or> (of_char c :: nat) > 126
      then [bs, CHR ''u'', CHR ''0'', CHR ''0'',
            hex_digit ((of_char c :: nat) div 16), hex_digit ((of_char c :: nat) mod 16)]
      else [c])"

definition quote :: "string \<Rightarrow> string" where
  "quote s = dq # concat (map escape_char s) @ [dq]"

text \<open>
  The decimal digits of a natural number, and of an integer with its sign.
\<close>

function digits_of :: "nat \<Rightarrow> string" where
  "digits_of n =
     (if n < 10 then [char_of (48 + n)]
      else digits_of (n div 10) @ [char_of (48 + n mod 10)])"
  by pat_completeness auto
termination
  by (relation "measure id") auto

declare digits_of.simps [simp del]

definition show_int :: "int \<Rightarrow> string" where
  "show_int i = (if i < 0 then CHR ''-'' # digits_of (nat (- i)) else digits_of (nat i))"

fun join_comma :: "string list \<Rightarrow> string" where
  "join_comma [] = []"
| "join_comma [x] = x"
| "join_comma (x # y # ys) = x @ '', '' @ join_comma (y # ys)"

fun json_dumps :: "json \<Rightarrow> string" where
  "json_dumps JNull = ''null''"
| "json_dumps (JBool b) = (if b then ''true'' else ''false'')"
| "json_dumps (JInt i) = show_int i"
| "json_dumps (JStr s) = quote s"
| "json_dumps (JArr xs) = ''['' @ join_comma (map json_dumps xs) @ '']''"
| "json_dumps (JObj kv) =
     ''{'' @ join_comma (map (\<lambda>p. quote (fst p) @ '': '' @ json_dumps (snd p)) kv) @ ''}''"

text \<open>
  The parser. White space is blank, tab, line feed and carriage return. A text that Python
  parses to a value outside the model (a number with a fraction or an exponent, \<^verbatim>\<open>NaN\<close>, a
  character beyond code point 255) gives \<open>None\<close> here, as a text that Python rejects does.
\<close>

definition is_ws :: "char \<Rightarrow> bool" where
  "is_ws c \<longleftrightarrow> c = CHR '' '' \<or> c = CHR 0x09 \<or> c = CHR 0x0A \<or> c = CHR 0x0D"

definition skip_ws :: "string \<Rightarrow> string" where
  "skip_ws s = dropWhile is_ws s"

definition hex_val :: "char \<Rightarrow> nat option" where
  "hex_val c =
     (let n = (of_char c :: nat) in
      if 48 \<le> n \<and> n \<le> 57 then Some (n - 48)
      else if 97 \<le> n \<and> n \<le> 102 then Some (n - 87)
      else if 65 \<le> n \<and> n \<le> 70 then Some (n - 55)
      else None)"

definition unescape :: "char \<Rightarrow> char option" where
  "unescape e =
     (if e = dq then Some dq
      else if e = bs then Some bs
      else if e = CHR ''/'' then Some (CHR ''/'')
      else if e = CHR ''b'' then Some (CHR 0x08)
      else if e = CHR ''f'' then Some (CHR 0x0C)
      else if e = CHR ''n'' then Some (CHR 0x0A)
      else if e = CHR ''r'' then Some (CHR 0x0D)
      else if e = CHR ''t'' then Some (CHR 0x09)
      else None)"

definition cons_result :: "char \<Rightarrow> (string \<times> string) option \<Rightarrow> (string \<times> string) option" where
  "cons_result c r = (case r of None \<Rightarrow> None | Some (s, rest) \<Rightarrow> Some (c # s, rest))"

text \<open>
  The characters of a string after its opening quote, up to the closing quote: escapes are
  decoded, a raw control character is an error.
\<close>

function scan_string :: "string \<Rightarrow> (string \<times> string) option" where
  "scan_string [] = None"
| "scan_string (c # cs) =
     (if c = dq then Some ([], cs)
      else if c = bs then
        (case cs of
           [] \<Rightarrow> None
         | e # r \<Rightarrow>
             if e = CHR ''u'' then
               (case r of
                  h1 # h2 # h3 # h4 # r' \<Rightarrow>
                    (case (hex_val h1, hex_val h2, hex_val h3, hex_val h4) of
                       (Some a, Some b, Some c', Some d) \<Rightarrow>
                         (let n = ((a * 16 + b) * 16 + c') * 16 + d in
                          if n < 256 then cons_result (char_of n) (scan_string r') else None)
                     | _ \<Rightarrow> None)
                | _ \<Rightarrow> None)
             else (case unescape e of
                     None \<Rightarrow> None
                   | Some ch \<Rightarrow> cons_result ch (scan_string r)))
      else if (of_char c :: nat) < 32 then None
      else cons_result c (scan_string cs))"
  by pat_completeness auto
termination
  by (relation "measure length") auto

text \<open>
  A number: an optional minus sign, then a single zero or a digit from 1 to 9 followed by
  digits.
\<close>

definition is_digit :: "char \<Rightarrow> bool" where
  "is_digit c \<longleftrightarrow> 48 \<le> (of_char c :: nat) \<and> (of_char c :: nat) \<le> 57"

definition digits_value :: "string \<Rightarrow> nat" where
  "digits_value ds = foldl (\<lambda>acc c. acc * 10 + ((of_char c :: nat) - 48)) 0 ds"

definition float_follows :: "string \<Rightarrow> bool" where
  "float_follows rest =
     (case rest of [] \<Rightarrow> False | c # _ \<Rightarrow> c = CHR ''.'' \<or> c = CHR ''e'' \<or> c = CHR ''E'')"

definition scan_number :: "string \<Rightarrow> (json \<times> string) option" where
  "scan_number s =
     (let neg = (case s of [] \<Rightarrow> False | c # _ \<Rightarrow> c = CHR ''-'');
          r = (if neg then drop 1 s else s) in
      case r of
        [] \<Rightarrow> None
      | d # r' \<Rightarrow>
          if \<not> is_digit d then None
          else
            (let ds = (if d = CHR ''0'' then [d] else d # takeWhile is_digit r');
                 rest = (if d = CHR ''0'' then r' else dropWhile is_digit r');
                 n = int (digits_value ds) in
             if float_follows rest then None
             else Some (JInt (if neg then - n else n), rest)))"

text \<open>
  The dict built from the members of an object: a repeated key keeps its first position and
  takes its last value.
\<close>

definition dict_of :: "(string \<times> json) list \<Rightarrow> (string \<times> json) list" where
  "dict_of pairs = foldl (\<lambda>acc p. AList.update (fst p) (snd p) acc) [] pairs"

text \<open>
  Values, the elements of an array after its opening bracket and the members of an object
  after its opening brace. The first argument bounds the number of nested calls; the length of
  the text is always enough for a text that \<open>json_dumps\<close> wrote (\<open>json_loads_dumps\<close>).
\<close>

fun parse_value :: "nat \<Rightarrow> string \<Rightarrow> (json \<times> string) option"
  and parse_elements :: "nat \<Rightarrow> string \<Rightarrow> (json list \<times> string) option"
  and parse_members :: "nat \<Rightarrow> string \<Rightarrow> ((string \<times> json) list \<times> string) option"
where
  "parse_value 0 s = None"
| "parse_value (Suc n) s =
     (case s of
        [] \<Rightarrow> None
      | c # r \<Rightarrow>
          if c = dq then
            (case scan_string r of None \<Rightarrow> None | Some (str, rest) \<Rightarrow> Some (JStr str, rest))
          else if c = CHR ''['' then
            (case skip_ws r of
               [] \<Rightarrow> None
             | c' # r' \<Rightarrow>
                 if c' = CHR '']'' then Some (JArr [], r')
                 else (case parse_elements n (c' # r') of
                         None \<Rightarrow> None
                       | Some (vs, rest) \<Rightarrow> Some (JArr vs, rest)))
          else if c = CHR ''{'' then
            (case skip_ws r of
               [] \<Rightarrow> None
             | c' # r' \<Rightarrow>
                 if c' = CHR ''}'' then Some (JObj [], r')
                 else (case parse_members n (c' # r') of
                         None \<Rightarrow> None
                       | Some (kvs, rest) \<Rightarrow> Some (JObj (dict_of kvs), rest)))
          else if prefix ''null'' s then Some (JNull, drop 4 s)
          else if prefix ''true'' s then Some (JBool True, drop 4 s)
          else if prefix ''false'' s then Some (JBool False, drop 5 s)
          else scan_number s)"
| "parse_elements 0 s = None"
| "parse_elements (Suc n) s =
     (case parse_value n s of
        None \<Rightarrow> None
      | Some (v, r) \<Rightarrow>
          (case skip_ws r of
             [] \<Rightarrow> None
           | c # r' \<Rightarrow>
               if c = CHR '','' then
                 (case parse_elements n (skip_ws r') of
                    None \<Rightarrow> None
                  | Some (vs, rest) \<Rightarrow> Some (v # vs, rest))
               else if c = CHR '']'' then Some ([v], r')
               else None))"
| "parse_members 0 s = None"
| "parse_members (Suc n) s =
     (case s of
        [] \<Rightarrow> None
      | c # r \<Rightarrow>
          if c \<noteq> dq then None
          else
            (case scan_string r of
               None \<Rightarrow> None
             | Some (k, r1) \<Rightarrow>
                 (case skip_ws r1 of
                    [] \<Rightarrow> None
                  | c1 # r2 \<Rightarrow>
                      if c1 \<noteq> CHR '':'' then None
                      else
                        (case parse_value n (skip_ws r2) of
                           None \<Rightarrow> None
                         | Some (v, r3) \<Rightarrow>
                             (case skip_ws r3 of
                                [] \<Rightarrow> None
                              | c3 # r4 \<Rightarrow>
                                  if c3 = CHR '','' then
                                    (case parse_members n (skip_ws r4) of
                                       None \<Rightarrow> None
                                     | Some (kvs, rest) \<Rightarrow> Some ((k, v) # kvs, rest))
                                  else if c3 = CHR ''}'' then Some ([(k, v)], r4)
                                  else None)))))"

definition json_loads :: "string \<Rightarrow> json option" where
  "json_loads s =
     (case parse_value (Suc (length s)) (skip_ws s) of
        None \<Rightarrow> None
      | Some (v, rest) \<Rightarrow> if skip_ws rest = [] then Some v else None)"

text \<open>
  The invariant of a Python dict: the keys of every object are distinct.
\<close>

fun wf_json :: "json \<Rightarrow> bool" where
  "wf_json (JArr xs) = list_all wf_json xs"
| "wf_json (JObj kv) = (distinct (map fst kv) \<and> list_all (\<lambda>p. wf_json (snd p)) kv)"
| "wf_json v = True"

text \<open>
  What follows a value inside a text written by \<open>json_dumps\<close>: a comma, a closing bracket
  or brace, or the end.
\<close>

definition follow_ok :: "string \<Rightarrow> bool" where
  "follow_ok rest =
     (case rest of [] \<Rightarrow> True | c # _ \<Rightarrow> c = CHR '','' \<or> c = CHR '']'' \<or> c = CHR ''}'')"

subsection \<open>Literal replacement and the submission payload\<close>

text \<open>
  The part of \<^verbatim>\<open>credentials.yaml\<close> the engine reads: per environment the name postfix and the
  credential declarations, and the replacement groups, each with one value per environment.
\<close>

record cred_decl =
  cred_name :: string
  cred_type :: string
  cred_data :: json

record environment =
  env_postfix :: string
  env_credentials :: "(string \<times> cred_decl) list"

record creds_config =
  cfg_environments :: "(string \<times> environment) list"
  cfg_replacements :: "(string \<times> (string \<times> string) list) list"

definition add_group_replacements ::
  "string \<Rightarrow> (string \<times> string) list \<Rightarrow> (string \<times> string) list \<Rightarrow> (string \<times> string) list" where
  "add_group_replacements env_type table values =
     (case map_of values env_type of
        None \<Rightarrow> table
      | Some target_value \<Rightarrow>
          foldl (\<lambda>acc (other_env, other_value).
                   if other_env \<noteq> env_type then AList.update other_value target_value acc
                   else acc) table values)"

definition get_environment_replacements :: "creds_config \<Rightarrow> string \<Rightarrow> (string \<times> string) list" where
  "get_environment_replacements config env_type =
     foldl (\<lambda>table (replacement_name, values). add_group_replacements env_type table values)
       [] (cfg_replacements config)"

definition apply_replacements :: "(string \<times> string) list \<Rightarrow> string \<Rightarrow> string" where
  "apply_replacements table workflow_str =
     foldl (\<lambda>s (old_value, new_value). py_replace old_value new_value s) workflow_str table"

text \<open>
  The \<^verbatim>\<open>try\<close> block of \<^verbatim>\<open>create_workflow\<close>. The table is \<open>None\<close> when reading the configuration
  raised; then, and when the replaced text does not parse, the \<^verbatim>\<open>except\<close> branch falls back to
  the definition as it was passed in.
\<close>

definition literal_replacement :: "(string \<times> string) list option \<Rightarrow> json \<Rightarrow> json \<Rightarrow> json" where
  "literal_replacement table workflow_payload workflow_data =
     (case table of
        None \<Rightarrow> workflow_data
      | Some replacements \<Rightarrow>
          (case json_loads (apply_replacements replacements (json_dumps workflow_payload)) of
             None \<Rightarrow> workflow_data
           | Some replaced \<Rightarrow> replaced))"

text \<open>
  The copy \<^verbatim>\<open>json.loads(json.dumps(workflow_data))\<close> followed by the \<^verbatim>\<open>try\<close> block: the
  literal-replacement step.
\<close>

definition replacement_step :: "(string \<times> string) list option \<Rightarrow> json \<Rightarrow> error + json" where
  "replacement_step table workflow_data =
     (case json_loads (json_dumps workflow_data) of
        None \<Rightarrow> Inl ValueError
      | Some workflow_payload \<Rightarrow> Inr (literal_replacement table workflow_payload workflow_data))"

text \<open>The whole rewrite: from the definition passed in to the payload that is submitted.\<close>

definition create_workflow_payload ::
  "(string \<times> string) list option \<Rightarrow> (string \<times> json) list \<Rightarrow> (json \<times> json) list \<Rightarrow> json
     \<Rightarrow> error + json" where
  "create_workflow_payload table credential_mapping sf_id_mapping workflow_data =
     (case replacement_step table workflow_data of
        Inl e \<Rightarrow> Inl e
      | Inr workflow_payload \<Rightarrow> rewrite_payload credential_mapping sf_id_mapping workflow_payload)"

subsection \<open>Dependency graph builder\<close>






subsection \<open>Resource mapping store\<close>

text \<open>
  The document \<^verbatim>\<open>resource_mapping.json\<close>: instance URL, then resource type, then remote id,
  to the display name. \<open>None\<close> is the absent file.
\<close>

type_synonym resources = "(string \<times> (string \<times> json) list) list"
type_synonym ledger = "(string \<times> resources) list"

definition empty_resources :: resources where
  "empty_resources = [(''workflows'', []), (''credentials'', []), (''projects'', [])]"

text \<open>
  \<^verbatim>\<open>save_resource_mapping\<close>: the document it writes, or \<open>None\<close> when the assignment raises
  \<^verbatim>\<open>KeyError\<close> (a resource type that is not a sub-map of the instance entry), which the
  function catches before it writes anything.
\<close>

definition save_attempt ::
  "string \<Rightarrow> string \<Rightarrow> string \<Rightarrow> json \<Rightarrow> ledger option \<Rightarrow> ledger option" where
  "save_attempt instance_url resource_type resource_id resource_name file =
     (let mappings = (case file of None \<Rightarrow> [] | Some m \<Rightarrow> m);
          mappings1 = (if instance_url \<in> set (map fst mappings) then mappings
                       else AList.update instance_url empty_resources mappings)
      in case map_of mappings1 instance_url of
           None \<Rightarrow> None
         | Some entry \<Rightarrow>
             (case map_of entry resource_type of
                None \<Rightarrow> None
              | Some sub \<Rightarrow>
                  Some (AList.update instance_url
                          (AList.update resource_type
                             (AList.update resource_id resource_name sub) entry) mappings1)))"

definition save_resource_mapping ::
  "string \<Rightarrow> string \<Rightarrow> string \<Rightarrow> json \<Rightarrow> ledger option \<Rightarrow> ledger option" where
  "save_resource_mapping instance_url resource_type resource_id resource_name file =
     (case save_attempt instance_url resource_type resource_id resource_name file of
        None \<Rightarrow> file
      | Some written \<Rightarrow> Some written)"

text \<open>
  \<^verbatim>\<open>remove_resource_mapping\<close>: the document it writes, or \<open>None\<close> when the file is absent or
  the entry is not in it, in which case nothing is written.
\<close>

definition remove_attempt ::
  "string \<Rightarrow> string \<Rightarrow> string \<Rightarrow> ledger option \<Rightarrow> ledger option" where
  "remove_attempt instance_url resource_type resource_id file =
     (case file of
        None \<Rightarrow> None
      | Some mappings \<Rightarrow>
          (case map_of mappings instance_url of
             None \<Rightarrow> None
           | Some entry \<Rightarrow>
               (case map_of entry resource_type of
                  None \<Rightarrow> None
                | Some sub \<Rightarrow>
                    if resource_id \<in> set (map fst sub)
                    then Some (AList.update instance_url
                                 (AList.update resource_type
                                    (AList.delete resource_id sub) entry) mappings)
                    else None)))"

definition remove_resource_mapping ::
  "string \<Rightarrow> string \<Rightarrow> string \<Rightarrow> ledger option \<Rightarrow> ledger option" where
  "remove_resource_mapping instance_url resource_type resource_id file =
     (case remove_attempt instance_url resource_type resource_id file of
        None \<Rightarrow> file
      | Some written \<Rightarrow> Some written)"

text \<open>
  \<^verbatim>\<open>get_instance_resources\<close>: the entry of the instance, or the three empty sub-maps.
\<close>

definition get_instance_resources :: "string \<Rightarrow> ledger option \<Rightarrow> resources" where
  "get_instance_resources instance_url file =
     (case file of
        None \<Rightarrow> empty_resources
      | Some mappings \<Rightarrow>
          (case map_of mappings instance_url of
             None \<Rightarrow> empty_resources
           | Some entry \<Rightarrow> entry))"

text \<open>Whether \<open>listFor\<close> of an instance reports an id under a resource type.\<close>

definition listed :: "string \<Rightarrow> string \<Rightarrow> string \<Rightarrow> ledger option \<Rightarrow> bool" where
  "listed instance_url resource_type resource_id file =
     (case map_of (get_instance_resources instance_url file) resource_type of
        None \<Rightarrow> False
      | Some sub \<Rightarrow> resource_id \<in> set (map fst sub))"

text \<open>
  Sequences of store operations: \<open>record\<close> is \<^verbatim>\<open>save_resource_mapping\<close>, \<open>forget\<close> is
  \<^verbatim>\<open>remove_resource_mapping\<close>.
\<close>

datatype store_op =
    Record string string string json
  | Forget string string string

fun apply_store_op :: "ledger option \<Rightarrow> store_op \<Rightarrow> ledger option" where
  "apply_store_op file (Record u t i n) = save_resource_mapping u t i n file"
| "apply_store_op file (Forget u t i) = remove_resource_mapping u t i file"

definition run_store_ops :: "store_op list \<Rightarrow> ledger option \<Rightarrow> ledger option" where
  "run_store_ops ops file = foldl apply_store_op file ops"

subsection \<open>Remote transport, trace and ledger effects\<close>

text \<open>
  The requests the engine sends. The base URL and the API key are fixed during one operation and
  are left out; an identifier that the engine formats into the URL is kept as the value it has.
\<close>

datatype request =
    PostWorkflow json
  | PutTransfer json "string option"
  | DeleteWorkflow json
  | PostCredential json
  | DeleteCredential json
  | DeleteProject json

record response =
  status_code :: int
  resp_text :: string

text \<open>A call of the HTTP library either raises (no connection, timeout) or returns a response.\<close>

datatype outcome = Raised | Returned response

text \<open>
  What one run does to the outside, in order: the HTTP exchanges, and the writes of the ledger
  document (an entry saved, an entry removed).
\<close>

datatype event =
    Http request outcome
  | LedgerWrite string string string json
  | LedgerRemove string string string

record 'w sys =
  world :: 'w
  trace :: "event list"
  storage :: "ledger option"

type_synonym 'w transport = "request \<Rightarrow> 'w \<Rightarrow> outcome \<times> 'w"

definition send :: "'w transport \<Rightarrow> request \<Rightarrow> 'w sys \<Rightarrow> outcome \<times> 'w sys" where
  "send transport req s =
     (case transport req (world s) of
        (out, w) \<Rightarrow> (out, s\<lparr>world := w, trace := trace s @ [Http req out]\<rparr>))"

text \<open>\<^verbatim>\<open>response.json()\<close>: raises when the body is not JSON.\<close>

definition response_json :: "response \<Rightarrow> json option" where
  "response_json r = json_loads (resp_text r)"

text \<open>
  The key under which \<^verbatim>\<open>json.dump\<close> writes a dict key: strings as they are, numbers, booleans
  and \<^verbatim>\<open>None\<close> as their JSON text. A list or an object cannot be a dict key at all.
\<close>

definition ledger_key :: "json \<Rightarrow> string option" where
  "ledger_key v =
     (case v of
        JStr s \<Rightarrow> Some s
      | JInt i \<Rightarrow> Some (show_int i)
      | JBool b \<Rightarrow> Some (if b then ''true'' else ''false'')
      | JNull \<Rightarrow> Some ''null''
      | _ \<Rightarrow> None)"

text \<open>A call of \<^verbatim>\<open>save_resource_mapping\<close>, and of \<^verbatim>\<open>remove_resource_mapping\<close>, on the system.\<close>

definition record_resource :: "string \<Rightarrow> string \<Rightarrow> json \<Rightarrow> json \<Rightarrow> 'w sys \<Rightarrow> 'w sys" where
  "record_resource instance_url resource_type resource_id resource_name s =
     (case ledger_key resource_id of
        None \<Rightarrow> s
      | Some k \<Rightarrow>
          (case save_attempt instance_url resource_type k resource_name (storage s) of
             None \<Rightarrow> s
           | Some written \<Rightarrow>
               s\<lparr>storage := Some written,
                 trace := trace s @ [LedgerWrite instance_url resource_type k resource_name]\<rparr>))"


subsection \<open>Creating a workflow\<close>

text \<open>
  The second half of \<^verbatim>\<open>create_workflow\<close>: submit the payload, transfer the new workflow to the
  project where the target has projects, record it in the ledger. The result is the new id,
  or \<open>JNull\<close> for Python's \<^verbatim>\<open>None\<close>. Every exception in this half is caught by the
  \<^verbatim>\<open>except Exception\<close> of the function, which returns \<^verbatim>\<open>None\<close>: a raising HTTP call, a
  response body that is not JSON, a body that is not an object.
\<close>

definition finish_workflow :: "string \<Rightarrow> json \<Rightarrow> json \<Rightarrow> 'w sys \<Rightarrow> json \<times> 'w sys" where
  "finish_workflow base_url workflow_id workflow_name s =
     (workflow_id, record_resource base_url ''workflows'' workflow_id workflow_name s)"

definition transfer_workflow ::
  "'w transport \<Rightarrow> string \<Rightarrow> string option \<Rightarrow> json \<Rightarrow> json \<Rightarrow> 'w sys \<Rightarrow> json \<times> 'w sys" where
  "transfer_workflow transport base_url project_id workflow_id workflow_name s1 =
     (case send transport (PutTransfer workflow_id project_id) s1 of
        (Raised, s2) \<Rightarrow> (JNull, s2)
      | (Returned transfer_response, s2) \<Rightarrow>
          if status_code transfer_response \<noteq> 200 \<and> status_code transfer_response \<noteq> 204 then
            (if resp_text transfer_response \<noteq> [] \<and> response_json transfer_response = None
             then (JNull, s2)
             else (JNull, snd (send transport (DeleteWorkflow workflow_id) s2)))
          else finish_workflow base_url workflow_id workflow_name s2)"

definition submit_workflow ::
  "'w transport \<Rightarrow> string \<Rightarrow> string option \<Rightarrow> bool \<Rightarrow> json \<Rightarrow> 'w sys \<Rightarrow> json \<times> 'w sys" where
  "submit_workflow transport base_url project_id supports_projects payload s =
     (case send transport (PostWorkflow payload) s of
        (Raised, s1) \<Rightarrow> (JNull, s1)
      | (Returned response, s1) \<Rightarrow>
          if status_code response \<noteq> 200 then (JNull, s1)
          else
            (case response_json response of
               Some (JObj body) \<Rightarrow>
                 (let workflow_id = dict_get body ''id'' JNull;
                      workflow_name = (case payload of
                                         JObj p \<Rightarrow> dict_get p ''name'' JNull
                                       | _ \<Rightarrow> JNull)
                  in if supports_projects
                     then transfer_workflow transport base_url project_id workflow_id
                            workflow_name s1
                     else finish_workflow base_url workflow_id workflow_name s1)
             | _ \<Rightarrow> (JNull, s1)))"

text \<open>
  \<^verbatim>\<open>create_workflow\<close>. An exception of the rewrite is raised before any request is sent and is
  not caught by the function.
\<close>

definition create_workflow ::
  "'w transport \<Rightarrow> string \<Rightarrow> json \<Rightarrow> string option \<Rightarrow> (string \<times> json) list \<Rightarrow>
     (json \<times> json) list \<Rightarrow> (string \<times> string) list option \<Rightarrow> bool \<Rightarrow> 'w sys
     \<Rightarrow> error + (json \<times> 'w sys)" where
  "create_workflow transport base_url workflow_data project_id credential_mapping sf_id_mapping
       table supports_projects s =
     (case create_workflow_payload table credential_mapping sf_id_mapping workflow_data of
        Inl e \<Rightarrow> Inl e
      | Inr payload \<Rightarrow>
          Inr (submit_workflow transport base_url project_id supports_projects payload s))"

subsection \<open>Creating a credential\<close>







subsection \<open>Restore\<close>





subsection \<open>Cleanup\<close>







subsection \<open>Reading a trace\<close>

definition requests_of :: "event list \<Rightarrow> request list" where
  "requests_of tr = concat (map (\<lambda>e. case e of Http req out \<Rightarrow> [req] | _ \<Rightarrow> []) tr)"




subsection \<open>Observations on definitions and payloads\<close>

text \<open>The value of a key in the settings of a definition or payload, if both exist.\<close>

definition settings_value :: "string \<Rightarrow> json \<Rightarrow> json option" where
  "settings_value k doc =
     (case doc of
        JObj kv \<Rightarrow>
          (case dict_get kv ''settings'' (JObj []) of
             JObj settings \<Rightarrow> map_of settings k
           | _ \<Rightarrow> None)
      | _ \<Rightarrow> None)"

definition setting_keys :: "string list" where
  "setting_keys = [''saveExecutionProgress'', ''saveManualExecutions'',
     ''saveDataErrorExecution'', ''executionTimeout'', ''errorWorkflow'']"

definition default_setting :: "string \<Rightarrow> json" where
  "default_setting k =
     (if k = ''saveExecutionProgress'' then JBool True
      else if k = ''saveManualExecutions'' then JBool True
      else if k = ''saveDataErrorExecution'' then JStr ''all''
      else if k = ''executionTimeout'' then JInt 3600
      else JStr [])"


subsection \<open>The two-workflow scenario\<close>

text \<open>
  \<open>scenario_W1\<close> has no sub-workflow node; \<open>scenario_W2\<close> has one node that invokes
  \<open>W1\<close> by its string id.
\<close>

definition scenario_W1 :: json where
  "scenario_W1 = JObj [
     (''id'', JStr ''W1''), (''name'', JStr ''First''),
     (''nodes'', JArr [JObj [(''name'', JStr ''Start''),
                             (''type'', JStr ''n8n-nodes-base.manualTrigger'')]]),
     (''connections'', JObj [])]"


subsection \<open>Example transports and observations\<close>

text \<open>What a call that returns leaves to be seen: its result, the requests sent, the ledger.\<close>

definition observe :: "'a \<times> 'w sys \<Rightarrow> 'a \<times> request list \<times> ledger option" where
  "observe r = (fst r, requests_of (trace (snd r)), storage (snd r))"

definition fresh_sys :: "ledger option \<Rightarrow> unit sys" where
  "fresh_sys file = \<lparr>world = (), trace = [], storage = file\<rparr>"

text \<open>
  A target that creates the workflow as \<open>wf9\<close> and answers the transfer with the given status
  and body; every other request is answered with status 200 and an empty body.
\<close>

definition transfer_fails_with :: "int \<Rightarrow> string \<Rightarrow> unit transport" where
  "transfer_fails_with code body req w =
     (case req of
        PostWorkflow p \<Rightarrow>
          (Returned \<lparr>status_code = 200, resp_text = json_dumps (JObj [(''id'', JStr ''wf9'')])\<rparr>, w)
      | PutTransfer i p \<Rightarrow> (Returned \<lparr>status_code = code, resp_text = body\<rparr>, w)
      | _ \<Rightarrow> (Returned \<lparr>status_code = 200, resp_text = []\<rparr>, w))"





subsection \<open>Auxiliary notions used in the proofs\<close>

definition number_end :: "string \<Rightarrow> bool" where
  "number_end rest \<longleftrightarrow> \<not> float_follows rest \<and> (case rest of [] \<Rightarrow> True | c # _ \<Rightarrow> \<not> is_digit c)"

definition value_start :: "char \<Rightarrow> bool" where
  "value_start c \<longleftrightarrow> \<not> is_ws c \<and> c \<noteq> CHR '']'' \<and> c \<noteq> CHR ''}''"

definition parses :: "json \<Rightarrow> bool" where
  "parses v \<longleftrightarrow>
     (\<forall>n rest. follow_ok rest \<longrightarrow> length (json_dumps v) \<le> n \<longrightarrow>
        parse_value n (json_dumps v @ rest) = Some (v, rest))"

definition member_text :: "string \<times> json \<Rightarrow> string" where
  "member_text p = quote (fst p) @ '': '' @ json_dumps (snd p)"

definition defaulted :: "(string \<times> json) list \<Rightarrow> json" where
  "defaulted settings = JObj [
     (''saveExecutionProgress'', dict_get settings ''saveExecutionProgress'' (JBool True)),
     (''saveManualExecutions'', dict_get settings ''saveManualExecutions'' (JBool True)),
     (''saveDataErrorExecution'', dict_get settings ''saveDataErrorExecution'' (JStr ''all'')),
     (''executionTimeout'', dict_get settings ''executionTimeout'' (JInt 3600)),
     (''errorWorkflow'', dict_get settings ''errorWorkflow'' (JStr []))]"

definition recorded_only :: "store_op list \<Rightarrow> ledger option \<Rightarrow> bool" where
  "recorded_only ops file \<longleftrightarrow>
     (\<forall>m u e t sub i n. file = Some m \<longrightarrow> (u, e) \<in> set m \<longrightarrow> (t, sub) \<in> set e \<longrightarrow>
        (i, n) \<in> set sub \<longrightarrow> Record u t i n \<in> set ops)"


section \<open>Lemmas\<close>

subsection \<open>Properties of the order resolver\<close>

lemma fold_delete_filter:
  "fold AList.delete ks xs = filter (\<lambda>p. fst p \<notin> set ks) xs"
proof (induction ks arbitrary: xs)
  case Nil
  then show ?case by simp
next
  case (Cons k ks)
  have "AList.delete k xs = filter (\<lambda>p. k \<noteq> fst p) xs"
    by (simp add: AList.delete_eq case_prod_unfold)
  then show ?case using Cons by (auto intro: filter_cong)
qed

lemma ready_ids_subset: "set (ready_ids remaining) \<subseteq> fst ` set remaining"
  by (auto simp: ready_ids_def)

lemma ready_ids_shrinks:
  assumes "ready_ids remaining \<noteq> []"
  shows "length (fold AList.delete (ready_ids remaining) remaining) < length remaining"
proof -
  from assms obtain w where w: "w \<in> set (ready_ids remaining)"
    by (cases "ready_ids remaining") auto
  with ready_ids_subset obtain p where "p \<in> set remaining" "fst p = w" by fastforce
  with w show ?thesis
    unfolding fold_delete_filter by (intro length_filter_less [of p]) auto
qed

lemma placed_before_append_left:
  "w \<notin> set xs \<Longrightarrow> placed_before d w (xs @ ys) \<longleftrightarrow> d \<in> set xs \<or> placed_before d w ys"
  by (auto simp: placed_before_def takeWhile_append)


lemma ready_ids_iff:
  "distinct (map fst remaining) \<Longrightarrow> (w, deps) \<in> set remaining \<Longrightarrow>
     w \<in> set (ready_ids remaining) \<longleftrightarrow> (\<forall>d\<in>set deps. d \<notin> fst ` set remaining)"
proof -
  assume dist: "distinct (map fst remaining)" and mem: "(w, deps) \<in> set remaining"
  have "w \<in> set (ready_ids remaining) \<longleftrightarrow>
      (\<exists>deps'. (w, deps') \<in> set remaining \<and> (\<forall>d\<in>set deps'. d \<notin> fst ` set remaining))"
    by (force simp: ready_ids_def list_ex_iff)
  also have "\<dots> \<longleftrightarrow> (\<forall>d\<in>set deps. d \<notin> fst ` set remaining)"
    using eq_key_imp_eq_value [OF dist mem] mem by blast
  finally show ?thesis .
qed

lemma distinct_ready_ids:
  "distinct (map fst remaining) \<Longrightarrow> distinct (ready_ids remaining)"
  by (simp add: ready_ids_def distinct_map_filter)

lemma distinct_fold_delete:
  "distinct (map fst remaining) \<Longrightarrow> distinct (map fst (fold AList.delete ks remaining))"
  by (simp add: fold_delete_filter distinct_map_filter)

lemma order_loop_sound:
  "order_loop remaining order = Inr res \<Longrightarrow> distinct (map fst remaining) \<Longrightarrow>
     \<exists>ys. res = order @ ys \<and> distinct ys \<and> set ys = fst ` set remaining \<and>
       (\<forall>(w, deps)\<in>set remaining. \<forall>d\<in>set deps.
          d \<in> fst ` set remaining \<longrightarrow> placed_before d w ys)"
proof (induction remaining order rule: order_loop.induct)
  case (1 remaining order)
  show ?case
  proof (cases "remaining = []")
    case True
    with "1.prems" show ?thesis by simp
  next
    case False
    define ready where "ready = ready_ids remaining"
    define rem' where "rem' = fold AList.delete ready remaining"
    from False "1.prems"(1) have nonempty: "ready \<noteq> []"
      by (auto simp: ready_def Let_def split: if_splits)
    with False "1.prems"(1) have run: "order_loop rem' (order @ ready) = Inr res"
      by (simp add: ready_def rem'_def Let_def)
    have dist': "distinct (map fst rem')"
      unfolding rem'_def using "1.prems"(2) by (rule distinct_fold_delete)
    from "1.IH" [OF False ready_def nonempty
        run [unfolded rem'_def] dist' [unfolded rem'_def]]
    obtain ys where ys: "res = (order @ ready) @ ys" "distinct ys"
      "set ys = fst ` set rem'"
      "\<forall>(w, deps)\<in>set rem'. \<forall>d\<in>set deps. d \<in> fst ` set rem' \<longrightarrow> placed_before d w ys"
      unfolding rem'_def by blast
    have rem'_set: "set rem' = {p \<in> set remaining. fst p \<notin> set ready}"
      by (auto simp: rem'_def fold_delete_filter)
    have ready_sub: "set ready \<subseteq> fst ` set remaining"
      unfolding ready_def by (rule ready_ids_subset)
    have keys': "fst ` set rem' = fst ` set remaining - set ready"
      using rem'_set by force
    have "distinct (ready @ ys)"
      using ys(2,3) keys' distinct_ready_ids [OF "1.prems"(2)] by (auto simp: ready_def)
    moreover have "set (ready @ ys) = fst ` set remaining"
      using ys(3) keys' ready_sub by auto
    moreover have pb: "placed_before d w (ready @ ys)"
      if mem: "(w, deps) \<in> set remaining" and d: "d \<in> set deps"
        and dk: "d \<in> fst ` set remaining" for w deps d
    proof -
      from ready_ids_iff [OF "1.prems"(2) mem] d dk have wn: "w \<notin> set ready"
        by (auto simp: ready_def)
      with mem have mem': "(w, deps) \<in> set rem'" by (simp add: rem'_set)
      show ?thesis
      proof (cases "d \<in> set ready")
        case True
        with wn show ?thesis by (simp add: placed_before_append_left)
      next
        case False
        with dk keys' have "d \<in> fst ` set rem'" by simp
        with ys(4) mem' d have "placed_before d w ys" by blast
        with wn show ?thesis by (simp add: placed_before_append_left)
      qed
    qed
    moreover have "\<forall>(w, deps)\<in>set remaining. \<forall>d\<in>set deps.
        d \<in> fst ` set remaining \<longrightarrow> placed_before d w (ready @ ys)"
      using pb by blast
    ultimately show ?thesis using ys(1) by (intro exI [of _ "ready @ ys"]) simp
  qed
qed

lemma dep_rel_mono:
  "set rem \<subseteq> set g \<Longrightarrow> dep_rel rem \<subseteq> dep_rel g"
  by (auto simp: dep_rel_def)

lemma finite_dep_rel: "finite (dep_rel g)"
proof -
  have "dep_rel g \<subseteq> (fst ` set g) \<times> (fst ` set g)"
    by (force simp: dep_rel_def)
  then show ?thesis by (rule finite_subset) simp
qed

lemma acyclic_ready_nonempty:
  assumes ac: "acyclic (dep_rel remaining)" and ne: "remaining \<noteq> []"
  shows "ready_ids remaining \<noteq> []"
proof -
  have "wf (dep_rel remaining)"
    using finite_dep_rel ac by (rule finite_acyclic_wf)
  moreover from ne obtain p where "p \<in> set remaining" by (cases remaining) auto
  then have "fst p \<in> fst ` set remaining" by simp
  ultimately obtain z where z: "z \<in> fst ` set remaining"
    and least: "\<And>y. (y, z) \<in> dep_rel remaining \<Longrightarrow> y \<notin> fst ` set remaining"
    unfolding wf_eq_minimal by blast
  from z obtain deps where mem: "(z, deps) \<in> set remaining" by auto
  have "\<forall>d\<in>set deps. d \<notin> fst ` set remaining"
  proof
    fix d assume "d \<in> set deps"
    show "d \<notin> fst ` set remaining"
    proof
      assume "d \<in> fst ` set remaining"
      with mem \<open>d \<in> set deps\<close> have "(d, z) \<in> dep_rel remaining"
        by (auto simp: dep_rel_def)
      from least [OF this] \<open>d \<in> fst ` set remaining\<close> show False by simp
    qed
  qed
  with mem have "z \<in> set (ready_ids remaining)"
    by (force simp: ready_ids_def list_ex_iff)
  then show ?thesis by auto
qed

lemma order_loop_complete:
  "acyclic (dep_rel remaining) \<Longrightarrow> \<exists>res. order_loop remaining order = Inr res"
proof (induction remaining order rule: order_loop.induct)
  case (1 remaining order)
  show ?case
  proof (cases "remaining = []")
    case True
    then show ?thesis by simp
  next
    case False
    define ready where "ready = ready_ids remaining"
    have nonempty: "ready \<noteq> []"
      unfolding ready_def using "1.prems" False by (rule acyclic_ready_nonempty)
    have "set (fold AList.delete ready remaining) \<subseteq> set remaining"
      by (auto simp: fold_delete_filter)
    then have "acyclic (dep_rel (fold AList.delete ready remaining))"
      using "1.prems" by (meson acyclic_subset dep_rel_mono)
    from "1.IH" [OF False ready_def nonempty this]
    show ?thesis using False nonempty by (simp add: ready_def Let_def)
  qed
qed




lemma ready_ids_filtered:
  "ready_ids (filter (\<lambda>p. fst p \<notin> placed) g) = ready_after g placed"
proof -
  have keys: "fst ` set (filter (\<lambda>p. fst p \<notin> placed) g) = fst ` set g - placed"
    by force
  have "filter (\<lambda>(workflow_id, deps). \<not> list_ex (\<lambda>dep. dep \<in> set (map fst
            (filter (\<lambda>p. fst p \<notin> placed) g))) deps) (filter (\<lambda>p. fst p \<notin> placed) g)
      = filter (\<lambda>(w, deps). w \<notin> placed \<and> (\<forall>d\<in>set deps. d \<in> fst ` set g \<longrightarrow> d \<in> placed)) g"
    unfolding filter_filter
    by (rule filter_cong) (auto simp: list_ex_iff keys)
  then show ?thesis by (simp add: ready_ids_def ready_after_def)
qed

lemma order_loop_rounds:
  "order_loop remaining order = Inr res \<Longrightarrow>
     remaining = filter (\<lambda>p. fst p \<notin> set order) g \<Longrightarrow>
     \<exists>rounds. res = order @ concat rounds \<and>
       (\<forall>i<length rounds.
          rounds ! i = ready_after g (set order \<union> set (concat (take i rounds))))"
proof (induction remaining order rule: order_loop.induct)
  case (1 remaining order)
  show ?case
  proof (cases "remaining = []")
    case True
    with "1.prems" have "res = order @ concat []" by simp
    then show ?thesis by (intro exI [of _ "[]"]) simp
  next
    case False
    define ready where "ready = ready_ids remaining"
    from False "1.prems"(1) have nonempty: "ready \<noteq> []"
      by (auto simp: ready_def Let_def split: if_splits)
    with False "1.prems"(1)
    have run: "order_loop (fold AList.delete ready remaining) (order @ ready) = Inr res"
      by (simp add: ready_def Let_def)
    have rem': "fold AList.delete ready remaining = filter (\<lambda>p. fst p \<notin> set (order @ ready)) g"
      unfolding fold_delete_filter "1.prems"(2) filter_filter
      by (rule filter_cong) auto
    from "1.IH" [OF False ready_def nonempty run rem']
    obtain rounds where rounds: "res = (order @ ready) @ concat rounds"
      "\<forall>i<length rounds.
          rounds ! i = ready_after g (set (order @ ready) \<union> set (concat (take i rounds)))"
      by blast
    have first: "ready = ready_after g (set order)"
      unfolding ready_def "1.prems"(2) by (rule ready_ids_filtered)
    have "(ready # rounds) ! i
        = ready_after g (set order \<union> set (concat (take i (ready # rounds))))"
      if "i < length (ready # rounds)" for i
    proof (cases i)
      case 0
      with first show ?thesis by simp
    next
      case (Suc j)
      with that rounds(2) show ?thesis by (simp add: Un_assoc)
    qed
    with rounds(1) show ?thesis
      by (intro exI [of _ "ready # rounds"]) simp
  qed
qed

subsection \<open>Parsing inverts serialisation\<close>

lemma of_char_lt_256: "(of_char (c :: char) :: nat) < 256"
proof -
  have "(of_char c :: nat) = of_char c mod 256" by (simp only: of_char_mod_256)
  then show ?thesis by (metis mod_less_divisor zero_less_numeral)
qed

lemma hex_val_hex_digit: "n < 16 \<Longrightarrow> hex_val (hex_digit n) = Some n"
  by (auto simp: hex_val_def hex_digit_def Let_def)

lemma scan_string_escape:
  "scan_string (escape_char c @ tail) = cons_result c (scan_string tail)"
proof -
  let ?n = "of_char c :: nat"
  have lt: "?n < 256" by (rule of_char_lt_256)
  consider (dq) "c = dq" | (bs) "c = bs" | (nl) "c = CHR 0x0A" | (cr) "c = CHR 0x0D"
    | (tab) "c = CHR 0x09" | (ff) "c = CHR 0x0C" | (bsp) "c = CHR 0x08"
    | (uni) "c \<noteq> dq" "c \<noteq> bs" "c \<noteq> CHR 0x0A" "c \<noteq> CHR 0x0D" "c \<noteq> CHR 0x09"
        "c \<noteq> CHR 0x0C" "c \<noteq> CHR 0x08" "?n < 32 \<or> ?n > 126"
    | (plain) "c \<noteq> dq" "c \<noteq> bs" "32 \<le> ?n" "?n \<le> 126"
    by force
  then show ?thesis
  proof cases
    case uni
    have d1: "?n div 16 < 16" using lt by (simp add: less_mult_imp_div_less)
    have d2: "?n mod 16 < 16" by simp
    have z: "hex_val (CHR ''0'') = Some 0" by (simp add: hex_val_def)
    have val: "((0 * 16 + 0) * 16 + ?n div 16) * 16 + ?n mod 16 = ?n" by simp
    have esc: "escape_char c = [bs, CHR ''u'', CHR ''0'', CHR ''0'',
            hex_digit (?n div 16), hex_digit (?n mod 16)]"
      using uni by (simp add: escape_char_def)
    show ?thesis
      unfolding esc
      using lt by (simp add: z hex_val_hex_digit [OF d1] hex_val_hex_digit [OF d2] val
          dq_def bs_def del: mult_Suc_right)
  next
    case plain
    then have "escape_char c = [c]"
      by (auto simp: escape_char_def dq_def bs_def)
    with plain show ?thesis by simp
  qed (simp_all add: escape_char_def unescape_def dq_def bs_def)
qed

lemma scan_string_quote:
  "scan_string (concat (map escape_char s) @ dq # rest) = Some (s, rest)"
  by (induction s) (simp_all add: scan_string_escape cons_result_def)

lemma is_digit_char_of: "(n::nat) < 10 \<Longrightarrow> is_digit (char_of (48 + n))"
  by (simp add: is_digit_def)

lemma digit_value_char_of: "(n::nat) < 10 \<Longrightarrow> (of_char (char_of (48 + n) :: char) :: nat) - 48 = n"
  by simp

lemma digits_of_all_digits: "c \<in> set (digits_of n) \<Longrightarrow> is_digit c"
proof (induction n arbitrary: c rule: digits_of.induct)
  case (1 n)
  show ?case
  proof (cases "n < 10")
    case True
    with "1.prems" show ?thesis
      by (simp add: digits_of.simps [of n] is_digit_char_of)
  next
    case False
    have "n mod 10 < 10" by simp
    then have "is_digit (char_of (48 + n mod 10))" by (rule is_digit_char_of)
    with False "1.prems" "1.IH" show ?thesis
      by (auto simp: digits_of.simps [of n])
  qed
qed

lemma digits_of_nonempty: "digits_of n \<noteq> []"
  by (simp add: digits_of.simps [of n])

lemma digits_of_hd_nonzero: "0 < n \<Longrightarrow> \<exists>d ds. digits_of n = d # ds \<and> d \<noteq> CHR ''0''"
proof (induction n rule: digits_of.induct)
  case (1 n)
  show ?case
  proof (cases "n < 10")
    case True
    have "char_of (48 + n) \<noteq> CHR ''0''" if "n < 10" "0 < n" for n :: nat
    proof
      assume "char_of (48 + n) = CHR ''0''"
      then have "(of_char (char_of (48 + n) :: char) :: nat) = of_char (CHR ''0'')" by simp
      with that show False by simp
    qed
    with True "1.prems" show ?thesis by (simp add: digits_of.simps [of n])
  next
    case False
    then have "0 < n div 10" by simp
    with "1.IH" False obtain d ds where "digits_of (n div 10) = d # ds" "d \<noteq> CHR ''0''"
      by blast
    with False show ?thesis by (simp add: digits_of.simps [of n])
  qed
qed

lemma digits_value_snoc:
  "digits_value (ds @ [c]) = digits_value ds * 10 + ((of_char c :: nat) - 48)"
  by (simp add: digits_value_def)

lemma digits_value_digits_of: "digits_value (digits_of n) = n"
proof (induction n rule: digits_of.induct)
  case (1 n)
  show ?case
  proof (cases "n < 10")
    case True
    then show ?thesis by (simp add: digits_of.simps [of n] digits_value_def)
  next
    case False
    have "(of_char (char_of (48 + n mod 10) :: char) :: nat) - 48 = n mod 10"
      by (rule digit_value_char_of) simp
    with False "1.IH" show ?thesis
      by (simp add: digits_of.simps [of n] digits_value_snoc)
  qed
qed

lemma takeWhile_digits:
  assumes "\<forall>c\<in>set ds. is_digit c" "number_end rest"
  shows "takeWhile is_digit (ds @ rest) = ds" "dropWhile is_digit (ds @ rest) = rest"
proof -
  have r: "takeWhile is_digit rest = []" "dropWhile is_digit rest = rest"
    using assms(2) by (auto simp: number_end_def split: list.splits)
  show "takeWhile is_digit (ds @ rest) = ds" using assms(1) r
    by (simp add: takeWhile_append2)
  show "dropWhile is_digit (ds @ rest) = rest" using assms(1) r
    by (simp add: dropWhile_append2)
qed

lemma scan_digits:
  assumes "number_end rest"
  shows "scan_number (digits_of n @ rest) = Some (JInt (int n), rest)"
proof (cases "n = 0")
  case True
  have "char_of (48::nat) = CHR ''0''" by code_simp
  then have "digits_of 0 = [CHR ''0'']" by (simp add: digits_of.simps [of 0])
  with True assms show ?thesis
    by (simp add: scan_number_def Let_def is_digit_def digits_value_def number_end_def)
next
  case False
  then obtain d ds where eq: "digits_of n = d # ds" and nz: "d \<noteq> CHR ''0''"
    using digits_of_hd_nonzero by (metis neq0_conv)
  have all: "\<forall>c\<in>set (d # ds). is_digit c"
    using digits_of_all_digits [of _ n] eq by metis
  then have dd: "is_digit d" and dds: "\<forall>c\<in>set ds. is_digit c" by simp_all
  have minus: "d \<noteq> CHR ''-''" using dd by (auto simp: is_digit_def)
  have val: "digits_value (d # ds) = n" using digits_value_digits_of [of n] eq by simp
  show ?thesis
    using assms nz dd minus val takeWhile_digits [OF dds assms]
    by (simp add: eq scan_number_def Let_def number_end_def)
qed

lemma scan_show_int:
  assumes "number_end rest"
  shows "scan_number (show_int i @ rest) = Some (JInt i, rest)"
proof (cases "i < 0")
  case True
  define n where "n = nat (- i)"
  have pos: "0 < n" using True by (simp add: n_def)
  have i: "i = - int n" using True by (simp add: n_def)
  obtain d ds where eq: "digits_of n = d # ds" and nz: "d \<noteq> CHR ''0''"
    using digits_of_hd_nonzero [OF pos] by blast
  have all: "\<forall>c\<in>set (d # ds). is_digit c"
    using digits_of_all_digits [of _ n] eq by metis
  then have dd: "is_digit d" and dds: "\<forall>c\<in>set ds. is_digit c" by simp_all
  have val: "digits_value (d # ds) = n" using digits_value_digits_of [of n] eq by simp
  have "show_int i = CHR ''-'' # d # ds" using True eq by (simp add: show_int_def n_def)
  then show ?thesis
    using assms nz dd val takeWhile_digits [OF dds assms] i
    by (simp add: scan_number_def Let_def number_end_def)
next
  case False
  then have "show_int i = digits_of (nat i)" "int (nat i) = i" by (simp_all add: show_int_def)
  with scan_digits [OF assms, of "nat i"] show ?thesis by simp
qed

lemma follow_ok_number_end: "follow_ok rest \<Longrightarrow> number_end rest"
  by (auto simp: follow_ok_def number_end_def float_follows_def is_digit_def split: list.splits)

lemma show_int_start:
  "\<exists>c cs. show_int i = c # cs \<and> (c = CHR ''-'' \<or> is_digit c)"
proof (cases "i < 0")
  case True
  then show ?thesis by (simp add: show_int_def)
next
  case False
  obtain c cs where eq: "digits_of (nat i) = c # cs"
    using digits_of_nonempty [of "nat i"] by (cases "digits_of (nat i)") auto
  then have "is_digit c" using digits_of_all_digits [of c "nat i"] by simp
  with False eq show ?thesis by (simp add: show_int_def)
qed

lemma json_dumps_start: "\<exists>c cs. json_dumps v = c # cs \<and> value_start c"
proof (cases v)
  case (JInt i)
  obtain c cs where "show_int i = c # cs" "c = CHR ''-'' \<or> is_digit c"
    using show_int_start by blast
  with JInt show ?thesis
    by (auto simp: value_start_def is_ws_def is_digit_def)
qed (auto simp: value_start_def is_ws_def quote_def dq_def)

lemma skip_ws_start: "value_start c \<Longrightarrow> skip_ws (c # cs) = c # cs"
  by (simp add: skip_ws_def value_start_def)

lemma skip_ws_dumps: "skip_ws (json_dumps v @ r) = json_dumps v @ r"
proof -
  obtain c cs where "json_dumps v = c # cs" "value_start c"
    using json_dumps_start by blast
  then show ?thesis by (simp add: skip_ws_start)
qed

lemma skip_ws_space: "skip_ws (CHR '' '' # s) = skip_ws s"
  by (simp add: skip_ws_def is_ws_def)

lemma skip_ws_delims [simp]:
  "skip_ws (CHR '','' # s) = CHR '','' # s"
  "skip_ws (CHR '']'' # s) = CHR '']'' # s"
  "skip_ws (CHR ''}'' # s) = CHR ''}'' # s"
  "skip_ws (CHR '':'' # s) = CHR '':'' # s"
  by (simp_all add: skip_ws_def is_ws_def)

lemma follow_ok_delims [simp]:
  "follow_ok (CHR '','' # s)" "follow_ok (CHR '']'' # s)" "follow_ok (CHR ''}'' # s)"
  "follow_ok []"
  by (simp_all add: follow_ok_def)

lemma parse_elements_dumps:
  assumes "\<forall>v\<in>set vs. parses v" "vs \<noteq> []"
    "Suc (length (join_comma (map json_dumps vs))) \<le> n"
  shows "parse_elements n (join_comma (map json_dumps vs) @ CHR '']'' # rest) = Some (vs, rest)"
  using assms
proof (induction vs arbitrary: n)
  case Nil
  then show ?case by simp
next
  case (Cons v vs)
  from Cons.prems(3) obtain k where n: "n = Suc k" by (cases n) auto
  have pv: "parses v" using Cons.prems(1) by simp
  show ?case
  proof (cases vs)
    case Nil
    have "length (json_dumps v) \<le> k" using Cons.prems(3) n Nil by simp
    with pv have "parse_value k (json_dumps v @ CHR '']'' # rest) = Some (v, CHR '']'' # rest)"
      unfolding parses_def by simp
    with Nil n show ?thesis by simp
  next
    case (Cons y ys)
    let ?tail = "join_comma (map json_dumps (y # ys)) @ CHR '']'' # rest"
    have len: "length (json_dumps v) \<le> k" "Suc (length (join_comma (map json_dumps (y # ys)))) \<le> k"
      using Cons.prems(3) n Cons by simp_all
    from pv len(1)
    have "parse_value k (json_dumps v @ CHR '','' # CHR '' '' # ?tail)
        = Some (v, CHR '','' # CHR '' '' # ?tail)"
      unfolding parses_def by simp
    moreover have "skip_ws (CHR '' '' # ?tail) = ?tail"
    proof -
      have "join_comma (map json_dumps (y # ys)) = json_dumps y @ drop (length (json_dumps y)) (join_comma (map json_dumps (y # ys)))"
        by (cases ys) simp_all
      then obtain t where "join_comma (map json_dumps (y # ys)) = json_dumps y @ t" ..
      then show ?thesis by (simp add: skip_ws_space skip_ws_dumps)
    qed
    moreover have "parse_elements k ?tail = Some (y # ys, rest)"
      using Cons.IH [of k] Cons.prems(1) len(2) Cons by simp
    ultimately show ?thesis using Cons n by simp
  qed
qed

lemma parse_members_dumps:
  assumes "\<forall>p\<in>set kvs. parses (snd p)" "kvs \<noteq> []"
    "Suc (length (join_comma (map member_text kvs))) \<le> n"
  shows "parse_members n (join_comma (map member_text kvs) @ CHR ''}'' # rest) = Some (kvs, rest)"
  using assms
proof (induction kvs arbitrary: n)
  case Nil
  then show ?case by simp
next
  case (Cons p ps)
  obtain key v where p: "p = (key, v)" by (cases p)
  from Cons.prems(3) obtain k where n: "n = Suc k" by (cases n) auto
  have pv: "parses v" using Cons.prems(1) p by simp
  have member: "member_text p @ t =
      dq # concat (map escape_char key) @ dq # CHR '':'' # CHR '' '' # json_dumps v @ t" for t
    by (simp add: member_text_def quote_def p)
  have step: "parse_members (Suc k) (member_text p @ t) =
      (case skip_ws t of
         [] \<Rightarrow> None
       | c3 # r4 \<Rightarrow>
           if c3 = CHR '','' then
             (case parse_members k (skip_ws r4) of
                None \<Rightarrow> None
              | Some (kvs, rest) \<Rightarrow> Some ((key, v) # kvs, rest))
           else if c3 = CHR ''}'' then Some ([(key, v)], r4)
           else None)"
    if "follow_ok t" "length (json_dumps v) \<le> k" for t
  proof -
    from pv that have "parse_value k (json_dumps v @ t) = Some (v, t)"
      unfolding parses_def by simp
    then show ?thesis
      unfolding member
      by (simp add: scan_string_quote skip_ws_space skip_ws_dumps)
  qed
  have lenv: "length (json_dumps v) \<le> length (member_text p)"
    by (simp add: member_text_def p)
  show ?case
  proof (cases ps)
    case Nil
    have "length (json_dumps v) \<le> k" using Cons.prems(3) n Nil lenv by simp
    from step [OF _ this, of "CHR ''}'' # rest"] Nil n p show ?thesis by simp
  next
    case (Cons q qs)
    let ?tail = "join_comma (map member_text (q # qs)) @ CHR ''}'' # rest"
    have len: "length (json_dumps v) \<le> k" "Suc (length (join_comma (map member_text (q # qs)))) \<le> k"
      using Cons.prems(3) n Cons lenv by simp_all
    have "skip_ws (CHR '' '' # ?tail) = ?tail"
    proof -
      have "join_comma (map member_text (q # qs)) = member_text q @ drop (length (member_text q)) (join_comma (map member_text (q # qs)))"
        by (cases qs) simp_all
      then obtain t where "join_comma (map member_text (q # qs)) = member_text q @ t" ..
      then show ?thesis
        by (simp add: skip_ws_space member_text_def quote_def skip_ws_def is_ws_def dq_def)
    qed
    moreover have "parse_members k ?tail = Some (q # qs, rest)"
      using Cons.IH [of k] Cons.prems(1) len(2) Cons by simp
    ultimately show ?thesis
      using step [OF _ len(1), of "CHR '','' # CHR '' '' # ?tail"] Cons n p by simp
  qed
qed

lemma update_fresh: "k \<notin> fst ` set acc \<Longrightarrow> AList.update k v acc = acc @ [(k, v)]"
  by (induction acc) auto

lemma dict_of_distinct_aux:
  "distinct (map fst (acc @ kvs)) \<Longrightarrow>
     foldl (\<lambda>acc p. AList.update (fst p) (snd p) acc) acc kvs = acc @ kvs"
proof (induction kvs arbitrary: acc)
  case Nil
  then show ?case by simp
next
  case (Cons p kvs)
  have fresh: "fst p \<notin> fst ` set acc" using Cons.prems by auto
  have "distinct (map fst ((acc @ [p]) @ kvs))" using Cons.prems by simp
  from Cons.IH [OF this] fresh show ?case
    by (simp add: update_fresh)
qed

lemma dict_of_distinct: "distinct (map fst kvs) \<Longrightarrow> dict_of kvs = kvs"
  using dict_of_distinct_aux [of "[]" kvs] by (simp add: dict_of_def)

lemma wf_json_parses: "wf_json v \<Longrightarrow> parses v"
proof (induction v)
  case JNull
  show ?case unfolding parses_def
  proof (intro allI impI)
    fix n rest assume "length (json_dumps JNull) \<le> n"
    then obtain k where "n = Suc k" by (cases n) auto
    then show "parse_value n (json_dumps JNull @ rest) = Some (JNull, rest)"
      by (simp add: dq_def)
  qed
next
  case (JBool b)
  show ?case unfolding parses_def
  proof (intro allI impI)
    fix n rest assume "length (json_dumps (JBool b)) \<le> n"
    then obtain k where "n = Suc k" by (cases n; cases b) auto
    then show "parse_value n (json_dumps (JBool b) @ rest) = Some (JBool b, rest)"
      by (cases b) (simp_all add: dq_def)
  qed
next
  case (JInt i)
  show ?case unfolding parses_def
  proof (intro allI impI)
    fix n rest assume f: "follow_ok rest" and len: "length (json_dumps (JInt i)) \<le> n"
    obtain c cs where eq: "show_int i = c # cs" and c: "c = CHR ''-'' \<or> is_digit c"
      using show_int_start by blast
    from len eq obtain k where n: "n = Suc k" by (cases n) auto
    have "scan_number (show_int i @ rest) = Some (JInt i, rest)"
      using f by (intro scan_show_int follow_ok_number_end)
    moreover have "c \<noteq> dq" "c \<noteq> CHR ''[''" "c \<noteq> CHR ''{''" "c \<noteq> CHR ''n''"
      "c \<noteq> CHR ''t''" "c \<noteq> CHR ''f''"
      using c by (auto simp: is_digit_def dq_def)
    ultimately show "parse_value n (json_dumps (JInt i) @ rest) = Some (JInt i, rest)"
      using n eq by simp
  qed
next
  case (JStr s)
  show ?case unfolding parses_def
  proof (intro allI impI)
    fix n rest assume "length (json_dumps (JStr s)) \<le> n"
    then obtain k where "n = Suc k" by (cases n) (auto simp: quote_def)
    then show "parse_value n (json_dumps (JStr s) @ rest) = Some (JStr s, rest)"
      by (simp add: quote_def scan_string_quote)
  qed
next
  case (JArr xs)
  have all: "\<forall>v\<in>set xs. parses v"
    using JArr by (simp add: list_all_iff)
  show ?case unfolding parses_def
  proof (intro allI impI)
    fix n rest assume f: "follow_ok rest" and len: "length (json_dumps (JArr xs)) \<le> n"
    then obtain k where n: "n = Suc k" by (cases n) auto
    show "parse_value n (json_dumps (JArr xs) @ rest) = Some (JArr xs, rest)"
    proof (cases xs)
      case Nil
      with n show ?thesis by (simp add: dq_def)
    next
      case (Cons y ys)
      let ?body = "join_comma (map json_dumps xs)"
      obtain c cs where st: "json_dumps y = c # cs" "value_start c"
        using json_dumps_start by blast
      have "?body = json_dumps y @ drop (length (json_dumps y)) ?body"
        using Cons by (cases ys) simp_all
      then obtain t where body: "?body = c # t" using st(1) by (metis append_Cons)
      have "Suc (length ?body) \<le> k" using len n by simp
      from parse_elements_dumps [OF all _ this, of rest] Cons
      have "parse_elements k (?body @ CHR '']'' # rest) = Some (xs, rest)" by simp
      then show ?thesis
        using n st(2) body by (simp add: dq_def skip_ws_start value_start_def)
    qed
  qed
next
  case (JObj kv)
  have all: "\<forall>p\<in>set kv. parses (snd p)"
  proof
    fix p assume "p \<in> set kv"
    moreover from this JObj.prems have "wf_json (snd p)" by (simp add: list_all_iff)
    moreover have "snd p \<in> Basic_BNFs.snds p" by (cases p) simp
    ultimately show "parses (snd p)" using JObj.IH [of p "snd p"] by blast
  qed
  have dist: "distinct (map fst kv)" using JObj.prems by simp
  show ?case unfolding parses_def
  proof (intro allI impI)
    fix n rest assume f: "follow_ok rest" and len: "length (json_dumps (JObj kv)) \<le> n"
    then obtain k where n: "n = Suc k" by (cases n) auto
    have dumps: "json_dumps (JObj kv) = ''{'' @ join_comma (map member_text kv) @ ''}''"
      by (simp add: member_text_def [abs_def])
    show "parse_value n (json_dumps (JObj kv) @ rest) = Some (JObj kv, rest)"
    proof (cases kv)
      case Nil
      with n show ?thesis by (simp add: dq_def)
    next
      case (Cons q qs)
      let ?body = "join_comma (map member_text kv)"
      have "?body = member_text q @ drop (length (member_text q)) ?body"
        using Cons by (cases qs) simp_all
      then obtain t where body: "?body = dq # t"
        by (metis append_Cons member_text_def quote_def)
      have "Suc (length ?body) \<le> k" using len n dumps by simp
      from parse_members_dumps [OF all _ this, of rest] Cons
      have "parse_members k (?body @ CHR ''}'' # rest) = Some (kv, rest)" by simp
      then show ?thesis
        unfolding dumps using n body dist
        by (simp add: dict_of_distinct skip_ws_def is_ws_def dq_def)
    qed
  qed
qed

lemma json_loads_dumps: "wf_json v \<Longrightarrow> json_loads (json_dumps v) = Some v"
proof -
  assume "wf_json v"
  then have "parses v" by (rule wf_json_parses)
  then have "follow_ok [] \<longrightarrow> length (json_dumps v) \<le> Suc (length (json_dumps v)) \<longrightarrow>
      parse_value (Suc (length (json_dumps v))) (json_dumps v @ []) = Some (v, [])"
    unfolding parses_def by blast
  then have "parse_value (Suc (length (json_dumps v))) (json_dumps v) = Some (v, [])"
    by (simp del: parse_value.simps)
  moreover have "skip_ws (json_dumps v) = json_dumps v"
    using skip_ws_dumps [of v "[]"] by simp
  ultimately show ?thesis
    by (simp add: json_loads_def skip_ws_def [of "[]"] del: parse_value.simps)
qed

subsection \<open>Properties of the literal-replacement step\<close>

lemma replace_from_absent: "\<not> sublist old s \<Longrightarrow> replace_from old new s = s"
proof (induction old new s rule: replace_from.induct)
  case (1 old new)
  show ?case by simp
next
  case (2 old new c cs)
  from "2.prems" have np: "\<not> prefix old (c # cs)" and ns: "\<not> sublist old cs"
    by (auto simp: sublist_Cons_right)
  with "2.IH"(2) show ?case by simp
qed

lemma py_replace_absent: "\<not> sublist old s \<Longrightarrow> py_replace old new s = s"
  by (cases "old = []") (simp_all add: py_replace_def replace_from_absent)

lemma apply_replacements_absent:
  "\<forall>(old_value, new_value)\<in>set table. \<not> sublist old_value s \<Longrightarrow> apply_replacements table s = s"
  unfolding apply_replacements_def
  by (induction table) (auto simp: py_replace_absent)

lemma replacement_step_absent:
  assumes "wf_json workflow_data"
    and "\<forall>(old_value, new_value)\<in>set table. \<not> sublist old_value (json_dumps workflow_data)"
  shows "replacement_step (Some table) workflow_data = Inr workflow_data"
  using assms
  by (simp add: replacement_step_def literal_replacement_def json_loads_dumps
      apply_replacements_absent)

lemma replacement_step_no_table:
  "wf_json workflow_data \<Longrightarrow> replacement_step None workflow_data = Inr workflow_data"
  by (simp add: replacement_step_def literal_replacement_def json_loads_dumps)

subsection \<open>Properties of the payload\<close>

lemma normalize_settings_Inr:
  assumes "normalize_settings payload = Inr payload1"
  obtains settings where "dict_get payload ''settings'' (JObj []) = JObj settings"
    "payload1 = AList.update ''settings'' (defaulted settings) payload"
  using assms unfolding normalize_settings_def defaulted_def
  by (auto split: json.splits)

lemma dict_get_update:
  "dict_get (AList.update k v d) k' dflt = (if k' = k then v else dict_get d k' dflt)"
  by (simp add: dict_get_def AList.update_conv')


lemma rewrite_nodes_other_keys:
  assumes "rewrite_nodes cm sf payload1 = Inr payload2" and "k \<noteq> ''nodes''"
  shows "dict_get payload2 k dflt = dict_get payload1 k dflt"
proof -
  from assms(1) have "payload2 = payload1 \<or> (\<exists>ns. payload2 = AList.update ''nodes'' (JArr ns) payload1)"
    unfolding rewrite_nodes_def
    by (auto split: if_splits json.splits sum.splits list.splits)
  with assms(2) show ?thesis by (auto simp: dict_get_update)
qed

lemma create_payload_Inr:
  assumes "create_payload payload2 = Inr p"
  shows "p = JObj [
        (''name'', dict_get payload2 ''name'' JNull),
        (''nodes'', dict_get payload2 ''nodes'' JNull),
        (''connections'', dict_get payload2 ''connections'' JNull),
        (''settings'', dict_get payload2 ''settings'' (JObj []))]"
  using assms unfolding create_payload_def by (auto split: if_splits)

lemma rewrite_payload_settings:
  assumes "rewrite_payload cm sf workflow_payload = Inr p"
  obtains payload settings name nodes connections where
    "workflow_payload = JObj payload"
    "dict_get payload ''settings'' (JObj []) = JObj settings"
    "p = JObj [(''name'', name), (''nodes'', nodes), (''connections'', connections),
               (''settings'', defaulted settings)]"
proof -
  from assms obtain payload payload1 payload2 where wp: "workflow_payload = JObj payload"
    and n: "normalize_settings payload = Inr payload1"
    and r: "rewrite_nodes cm sf payload1 = Inr payload2"
    and c: "create_payload payload2 = Inr p"
    unfolding rewrite_payload_def by (auto split: json.splits sum.splits)
  from n obtain settings where s: "dict_get payload ''settings'' (JObj []) = JObj settings"
    "payload1 = AList.update ''settings'' (defaulted settings) payload"
    by (rule normalize_settings_Inr)
  have "dict_get payload2 ''settings'' (JObj []) = dict_get payload1 ''settings'' (JObj [])"
    using r by (rule rewrite_nodes_other_keys) simp
  also have "\<dots> = defaulted settings" using s(2) by (simp add: dict_get_update)
  finally have "p = JObj [
        (''name'', dict_get payload2 ''name'' JNull),
        (''nodes'', dict_get payload2 ''nodes'' JNull),
        (''connections'', dict_get payload2 ''connections'' JNull),
        (''settings'', defaulted settings)]"
    using create_payload_Inr [OF c] by simp
  with wp s(1) show ?thesis by (rule that)
qed

subsection \<open>Properties of settings, credential matching and identifier remapping\<close>

lemma settings_value_defaulted:
  "k \<in> set setting_keys \<Longrightarrow>
     map_of (case defaulted settings of JObj out \<Rightarrow> out | _ \<Rightarrow> []) k
       = Some (case map_of settings k of Some v \<Rightarrow> v | None \<Rightarrow> default_setting k)"
  by (auto simp: setting_keys_def defaulted_def default_setting_def dict_get_def
      split: option.splits)

lemma first_piece_split_space:
  "first_piece (split_space s) = takeWhile (\<lambda>c. c \<noteq> CHR '' '') s"
proof (induction s)
  case Nil
  show ?case by (simp add: first_piece_def)
next
  case (Cons c s)
  then show ?case
    by (cases "split_space s") (auto simp: first_piece_def)
qed

lemma base_name_of_takeWhile: "base_name_of x = takeWhile (\<lambda>c. c \<noteq> CHR '' '') x"
proof (cases "CHR '' '' \<in> set x")
  case True
  then show ?thesis by (simp add: base_name_of_def first_piece_split_space)
next
  case False
  then have eq: "takeWhile (\<lambda>c. c \<noteq> CHR '' '') x = x"
    by (induction x) auto
  from False have "base_name_of x = x" by (simp add: base_name_of_def)
  with eq show ?thesis by (simp only:)
qed

lemma base_name_no_space: "CHR '' '' \<notin> set (base_name_of x)"
  unfolding base_name_of_takeWhile by (auto dest: set_takeWhileD)

lemma replace_from_char:
  "replace_from [a] [b] s = map (\<lambda>c. if c = a then b else c) s"
  by (induction s) auto

lemma lower_char_space: "lower_char c = CHR '' '' \<longleftrightarrow> c = CHR '' ''"
proof
  assume l: "lower_char c = CHR '' ''"
  show "c = CHR '' ''"
  proof (rule ccontr)
    assume ne: "c \<noteq> CHR '' ''"
    define n where "n = (of_char c :: nat)"
    from ne l have up: "lower_char c = char_of (n + 32)" and rng: "65 \<le> n"
      by (auto simp: lower_char_def Let_def n_def split: if_splits)
    have "n = n mod 256" unfolding n_def by (simp only: of_char_mod_256)
    then have lt: "n < 256" by (metis mod_less_divisor zero_less_numeral)
    from l up have "(of_char (char_of (n + 32) :: char) :: nat) = of_char (CHR '' '')"
      by simp
    then have m: "(n + 32) mod 256 = 32" by simp
    show False
    proof (cases "n + 32 < 256")
      case True
      then have "(n + 32) mod 256 = n + 32" by (rule mod_less)
      with m rng show False by arith
    next
      case False
      with lt have small: "n + 32 - 256 < 256" by arith
      from False have "n + 32 = (n + 32 - 256) + 256" by arith
      then have "(n + 32) mod 256 = (n + 32 - 256) mod 256"
        by (metis mod_add_self2)
      with small have "(n + 32) mod 256 = n + 32 - 256" by simp
      with m False lt show False by arith
    qed
  qed
next
  assume "c = CHR '' ''"
  then show "lower_char c = CHR '' ''" by (simp add: lower_char_def)
qed

text \<open>
  The second test of the credential match, with underscores read as spaces, never holds unless
  the first does: the compared name was cut at its first space, so it has none.
\<close>

lemma underscore_test_is_dead:
  assumes "lower (py_replace ''_'' '' '' (base_name_of cred_key)) = lower (base_name_of old_name)"
  shows "lower (base_name_of cred_key) = lower (base_name_of old_name)"
proof -
  let ?k = "base_name_of cred_key"
  have rep: "py_replace ''_'' '' '' ?k = map (\<lambda>c. if c = CHR ''_'' then CHR '' '' else c) ?k"
    by (simp add: py_replace_def replace_from_char)
  have no_space: "CHR '' '' \<notin> set (lower b)" if "CHR '' '' \<notin> set b" for b
  proof
    assume "CHR '' '' \<in> set (lower b)"
    then obtain x where "x \<in> set b" "lower_char x = CHR '' ''"
      by (auto simp: lower_def)
    with that show False by (simp add: lower_char_space)
  qed
  have "CHR '' '' \<notin> set (lower (base_name_of old_name))"
    using base_name_no_space [of old_name] by (rule no_space)
  with assms have "CHR '' '' \<notin> set (lower (py_replace ''_'' '' '' ?k))" by simp
  then have "CHR '' '' \<notin> set (py_replace ''_'' '' '' ?k)"
  proof (rule contrapos_nn)
    assume "CHR '' '' \<in> set (py_replace ''_'' '' '' ?k)"
    then have "lower_char (CHR '' '') \<in> set (lower (py_replace ''_'' '' '' ?k))"
      unfolding lower_def by simp
    then show "CHR '' '' \<in> set (lower (py_replace ''_'' '' '' ?k))"
      by (simp add: lower_char_def)
  qed
  then have "CHR ''_'' \<notin> set ?k" unfolding rep by force
  then have "py_replace ''_'' '' '' ?k = ?k"
    unfolding rep by (intro map_idI) auto
  with assms show ?thesis by simp
qed









subsection \<open>Properties of the resource mapping store\<close>

lemma set_update_subset: "set (AList.update k v al) \<subseteq> insert (k, v) (set al)"
  by (induction al) auto

lemma set_delete_subset: "set (AList.delete k al) \<subseteq> set al"
  by (auto simp: AList.delete_eq)

lemma in_updateD: "p \<in> set (AList.update k v al) \<Longrightarrow> p = (k, v) \<or> p \<in> set al"
  using set_update_subset [of k v al] by auto

lemma recorded_only_mono:
  "recorded_only ops file \<Longrightarrow> recorded_only (ops @ [x]) file"
  unfolding recorded_only_def by (metis in_set_conv_decomp append_assoc append_Cons)

lemma save_attempt_SomeD:
  assumes "save_attempt u t i n file = Some written"
  obtains m1 entry sub where
    "m1 = (case file of None \<Rightarrow> [] | Some m \<Rightarrow> m) \<or>
     m1 = AList.update u empty_resources (case file of None \<Rightarrow> [] | Some m \<Rightarrow> m)"
    "map_of m1 u = Some entry" "map_of entry t = Some sub"
    "written = AList.update u (AList.update t (AList.update i n sub) entry) m1"
proof (cases "u \<in> set (map fst (case file of None \<Rightarrow> [] | Some m \<Rightarrow> m))")
  case True
  with assms that [of "case file of None \<Rightarrow> [] | Some m \<Rightarrow> m"] show ?thesis
    unfolding save_attempt_def Let_def by (auto split: option.splits)
next
  case False
  with assms that [of "AList.update u empty_resources (case file of None \<Rightarrow> [] | Some m \<Rightarrow> m)"]
  show ?thesis
    unfolding save_attempt_def Let_def by (auto split: option.splits)
qed

lemma recorded_only_save:
  assumes "recorded_only ops file"
  shows "recorded_only (ops @ [Record u t i n]) (save_resource_mapping u t i n file)"
proof (cases "save_attempt u t i n file")
  case None
  then have "save_resource_mapping u t i n file = file"
    by (simp add: save_resource_mapping_def)
  with recorded_only_mono [OF assms] show ?thesis by simp
next
  case (Some written)
  define mappings where "mappings = (case file of None \<Rightarrow> [] | Some m \<Rightarrow> m)"
  from Some obtain mappings1 entry sub where
    m1: "mappings1 = mappings \<or> mappings1 = AList.update u empty_resources mappings"
    and entry: "map_of mappings1 u = Some entry" and sub: "map_of entry t = Some sub"
    and written: "written = AList.update u (AList.update t (AList.update i n sub) entry) mappings1"
    unfolding mappings_def by (rule save_attempt_SomeD)
  have old: "Record u' t' i' n' \<in> set ops"
    if "(u', e') \<in> set mappings" "(t', sub') \<in> set e'" "(i', n') \<in> set sub'"
    for u' e' t' sub' i' n'
  proof (cases "file")
    case None
    with that show ?thesis by (simp add: mappings_def)
  next
    case (Some m)
    with that assms show ?thesis
      unfolding recorded_only_def mappings_def by auto
  qed
  have old1: "Record u' t' i' n' \<in> set ops"
    if "(u', e') \<in> set mappings1" "(t', sub') \<in> set e'" "(i', n') \<in> set sub'"
    for u' e' t' sub' i' n'
  proof -
    from m1 that(1) have "(u', e') = (u, empty_resources) \<or> (u', e') \<in> set mappings"
      by (auto dest: in_updateD)
    then show ?thesis
    proof
      assume "(u', e') = (u, empty_resources)"
      with that(2,3) show ?thesis by (auto simp: empty_resources_def)
    next
      assume "(u', e') \<in> set mappings"
      with that old show ?thesis by blast
    qed
  qed
  have "Record u' t' i' n' \<in> set (ops @ [Record u t i n])"
    if "(u', e') \<in> set written" "(t', sub') \<in> set e'" "(i', n') \<in> set sub'"
    for u' e' t' sub' i' n'
  proof -
    from that(1) consider
      (new) "u' = u" "e' = AList.update t (AList.update i n sub) entry"
      | (kept) "(u', e') \<in> set mappings1"
      unfolding written by (auto dest: in_updateD)
    then show ?thesis
    proof cases
      case kept
      with that old1 show ?thesis by auto
    next
      case new
      with that(2) consider
        (newsub) "t' = t" "sub' = AList.update i n sub" | (keptsub) "(t', sub') \<in> set entry"
        by (auto dest: in_updateD)
      then show ?thesis
      proof cases
        case keptsub
        with entry have "(u, entry) \<in> set mappings1" by (auto dest: map_of_SomeD)
        with keptsub that(3) new old1 show ?thesis by auto
      next
        case newsub
        with that(3) consider "(i', n') = (i, n)" | "(i', n') \<in> set sub"
          by (auto dest: in_updateD)
        then show ?thesis
        proof cases
          case 1
          with new newsub show ?thesis by simp
        next
          case 2
          from entry have "(u, entry) \<in> set mappings1" by (auto dest: map_of_SomeD)
          moreover from sub have "(t, sub) \<in> set entry" by (auto dest: map_of_SomeD)
          ultimately show ?thesis using 2 new newsub old1 by auto
        qed
      qed
    qed
  qed
  then show ?thesis
    using Some unfolding recorded_only_def save_resource_mapping_def by auto
qed

lemma recorded_only_remove:
  assumes "recorded_only ops file"
  shows "recorded_only (ops @ [Forget u t i]) (remove_resource_mapping u t i file)"
proof (cases "remove_attempt u t i file")
  case None
  then have "remove_resource_mapping u t i file = file"
    by (simp add: remove_resource_mapping_def)
  with recorded_only_mono [OF assms] show ?thesis by simp
next
  case (Some written)
  then obtain mappings entry sub where fl: "file = Some mappings"
    and entry: "map_of mappings u = Some entry" and sub: "map_of entry t = Some sub"
    and written: "written = AList.update u (AList.update t (AList.delete i sub) entry) mappings"
    by (auto simp: remove_attempt_def split: option.splits if_splits)
  have mem: "(u, entry) \<in> set mappings" "(t, sub) \<in> set entry"
    using entry sub by (auto dest: map_of_SomeD)
  have "Record u' t' i' n' \<in> set ops"
    if "(u', e') \<in> set written" "(t', sub') \<in> set e'" "(i', n') \<in> set sub'"
    for u' e' t' sub' i' n'
  proof -
    from that(1) consider
      (new) "u' = u" "e' = AList.update t (AList.delete i sub) entry"
      | (kept) "(u', e') \<in> set mappings"
      unfolding written by (auto dest: in_updateD)
    then show ?thesis
    proof cases
      case kept
      with that assms fl show ?thesis unfolding recorded_only_def by blast
    next
      case new
      with that(2) consider
        (newsub) "t' = t" "sub' = AList.delete i sub" | (keptsub) "(t', sub') \<in> set entry"
        by (auto dest: in_updateD)
      then show ?thesis
      proof cases
        case keptsub
        with mem(1) that(3) new assms fl show ?thesis unfolding recorded_only_def by blast
      next
        case newsub
        with that(3) have "(i', n') \<in> set sub"
          using set_delete_subset [of i sub] by auto
        with mem new newsub assms fl show ?thesis unfolding recorded_only_def by blast
      qed
    qed
  qed
  then show ?thesis
    using Some unfolding recorded_only_def remove_resource_mapping_def by auto
qed

lemma recorded_only_run:
  assumes "start = None \<or> start = Some []"
  shows "recorded_only ops (run_store_ops ops start)"
proof (induction ops rule: rev_induct)
  case Nil
  from assms show ?case by (auto simp: recorded_only_def run_store_ops_def)
next
  case (snoc x ops)
  show ?case
  proof (cases x)
    case (Record u t i n)
    with recorded_only_save [OF snoc, of u t i n] show ?thesis
      by (simp add: run_store_ops_def)
  next
    case (Forget u t i)
    with recorded_only_remove [OF snoc, of u t i] show ?thesis
      by (simp add: run_store_ops_def)
  qed
qed

lemma listed_recorded:
  assumes "recorded_only ops file" "listed u t i file"
  shows "\<exists>n. Record u t i n \<in> set ops"
proof -
  from assms(2) obtain sub where sub: "map_of (get_instance_resources u file) t = Some sub"
    and i: "i \<in> set (map fst sub)"
    by (auto simp: listed_def split: option.splits)
  from i obtain n where n: "(i, n) \<in> set sub" by auto
  show ?thesis
  proof (cases "\<exists>m entry. file = Some m \<and> map_of m u = Some entry")
    case True
    then obtain m entry where m: "file = Some m" "map_of m u = Some entry" by blast
    then have "get_instance_resources u file = entry"
      by (simp add: get_instance_resources_def)
    with sub have "(t, sub) \<in> set entry" by (auto dest: map_of_SomeD)
    moreover from m have "(u, entry) \<in> set m" by (auto dest: map_of_SomeD)
    ultimately show ?thesis using assms(1) m(1) n unfolding recorded_only_def by blast
  next
    case False
    then have "get_instance_resources u file = empty_resources"
      by (auto simp: get_instance_resources_def split: option.splits)
    with sub i show ?thesis by (auto simp: empty_resources_def split: if_splits)
  qed
qed

lemma map_of_update_same: "map_of (AList.update k v al) k = Some v"
  by (simp add: AList.update_conv')

lemma not_listed_after_remove: "\<not> listed u t i (remove_resource_mapping u t i file)"
proof (cases "remove_attempt u t i file")
  case None
  then have same: "remove_resource_mapping u t i file = file"
    by (simp add: remove_resource_mapping_def)
  from None show ?thesis
    unfolding same
    by (auto simp: remove_attempt_def listed_def get_instance_resources_def empty_resources_def
        split: option.splits if_splits)
next
  case (Some written)
  then obtain mappings entry sub where
    written: "written = AList.update u (AList.update t (AList.delete i sub) entry) mappings"
    by (auto simp: remove_attempt_def split: option.splits if_splits)
  have "i \<notin> set (map fst (AList.delete i sub))"
    by (auto simp: AList.delete_eq)
  then show ?thesis
    using Some
    by (simp add: remove_resource_mapping_def listed_def get_instance_resources_def written
        map_of_update_same)
qed

lemma untouched_instance_absent:
  assumes "start = None \<or> start = Some []" "\<forall>t i n. Record u t i n \<notin> set ops"
  shows "get_instance_resources u (run_store_ops ops start) = empty_resources"
  using assms(2)
proof (induction ops rule: rev_induct)
  case Nil
  from assms(1) show ?case by (auto simp: run_store_ops_def get_instance_resources_def)
next
  case (snoc x ops)
  define cur where "cur = run_store_ops ops start"
  from snoc have IH: "get_instance_resources u cur = empty_resources"
    by (simp add: cur_def)
  have step: "run_store_ops (ops @ [x]) start = apply_store_op cur x"
    by (simp add: run_store_ops_def cur_def)
  have absent: "get_instance_resources u (Some (AList.update u' e m)) = get_instance_resources u (Some m)"
    if "u' \<noteq> u" for u' e m
    using that by (simp add: get_instance_resources_def AList.update_conv')
  have "get_instance_resources u (apply_store_op cur x) = empty_resources"
  proof (cases x)
    case (Record u' t i n)
    with snoc.prems have ne: "u' \<noteq> u" by auto
    show ?thesis
    proof (cases "save_attempt u' t i n cur")
      case None
      with Record IH show ?thesis
        by (simp add: save_resource_mapping_def)
    next
      case (Some written)
      then obtain m1 entry sub where
        m1: "m1 = (case cur of None \<Rightarrow> [] | Some m \<Rightarrow> m) \<or>
                 m1 = AList.update u' empty_resources (case cur of None \<Rightarrow> [] | Some m \<Rightarrow> m)"
        and w: "written = AList.update u' (AList.update t (AList.update i n sub) entry) m1"
        by (rule save_attempt_SomeD)
      have base: "get_instance_resources u (Some (case cur of None \<Rightarrow> [] | Some m \<Rightarrow> m))
          = empty_resources"
        using IH by (cases cur) (simp_all add: get_instance_resources_def)
      from m1 have "get_instance_resources u (Some m1) = empty_resources"
        using base absent [OF ne] by auto
      then have "get_instance_resources u (Some written) = empty_resources"
        unfolding w using absent [OF ne] by simp
      with Record Some show ?thesis
        by (simp add: save_resource_mapping_def)
    qed
  next
    case (Forget u' t i)
    show ?thesis
    proof (cases "remove_attempt u' t i cur")
      case None
      with Forget IH show ?thesis
        by (simp add: remove_resource_mapping_def)
    next
      case (Some written)
      then obtain m entry e where fl: "cur = Some m" and entry: "map_of m u' = Some entry"
        and w: "written = AList.update u' e m"
        by (auto simp: remove_attempt_def split: option.splits if_splits)
      have "u' \<noteq> u"
      proof
        assume "u' = u"
        with entry fl IH have "entry = empty_resources"
          by (simp add: get_instance_resources_def)
        with Some fl entry show False
          by (auto simp: remove_attempt_def empty_resources_def split: option.splits if_splits)
      qed
      from absent [OF this] IH fl w have "get_instance_resources u (Some written) = empty_resources"
        by simp
      with Forget Some show ?thesis
        by (simp add: remove_resource_mapping_def)
    qed
  qed
  then show ?case by (simp add: step)
qed

subsection \<open>Properties of the effects\<close>

lemma send_effect:
  assumes "send transport req s = (out, s1)"
  shows "trace s1 = trace s @ [Http req out]" "storage s1 = storage s"
  using assms by (auto simp: send_def split: prod.splits)


lemma record_resource_effect:
  "trace (record_resource u t i n s) = trace s \<or>
   (\<exists>k. trace (record_resource u t i n s) = trace s @ [LedgerWrite u t k n])"
  by (simp add: record_resource_def split: option.splits)




lemma requests_of_append [simp]: "requests_of (xs @ ys) = requests_of xs @ requests_of ys"
  by (simp add: requests_of_def)




subsection \<open>Properties of restore\<close>






text \<open>
  What \<^verbatim>\<open>create_workflow\<close> does keep: a workflow entry is written to the ledger only in a run
  whose creation request was answered with status 200 and, where the target has projects,
  whose transfer was answered with status 200 or 204; every other run that returns reports no
  new id.
\<close>

lemma finish_workflow_effect:
  "\<exists>added. trace (snd (finish_workflow base_url workflow_id workflow_name s)) = trace s @ added \<and>
     (\<forall>e\<in>set added. \<exists>k. e = LedgerWrite base_url ''workflows'' k workflow_name)"
  using record_resource_effect [of base_url "''workflows''" workflow_id workflow_name s]
  by (auto simp: finish_workflow_def)

lemma transfer_workflow_effect:
  assumes "transfer_workflow transport base_url project_id workflow_id workflow_name s1 = (new_id, s')"
  shows "\<exists>added. trace s' = trace s1 @ added \<and>
     ((\<exists>r. Http (PutTransfer workflow_id project_id) (Returned r) \<in> set added \<and>
            (status_code r = 200 \<or> status_code r = 204)) \<or>
      (new_id = JNull \<and> storage s' = storage s1 \<and>
       (\<forall>e\<in>set added. \<forall>u t k n. e \<noteq> LedgerWrite u t k n)))"
proof -
  obtain out s2 where sent: "send transport (PutTransfer workflow_id project_id) s1 = (out, s2)"
    by (cases "send transport (PutTransfer workflow_id project_id) s1")
  note eff = send_effect [OF sent]
  show ?thesis
  proof (cases "\<exists>r. out = Returned r \<and> (status_code r = 200 \<or> status_code r = 204)")
    case True
    then obtain r where r: "out = Returned r" "status_code r = 200 \<or> status_code r = 204"
      by blast
    then have "(new_id, s') = finish_workflow base_url workflow_id workflow_name s2"
      using assms by (auto simp: transfer_workflow_def sent)
    with finish_workflow_effect [of base_url workflow_id workflow_name s2]
    obtain a2 where "trace s' = trace s2 @ a2" by (metis snd_conv)
    with eff(1) r show ?thesis
      by (intro exI [of _ "Http (PutTransfer workflow_id project_id) out # a2"]) auto
  next
    case False
    then have "new_id = JNull \<and> (s' = s2 \<or> s' = snd (send transport (DeleteWorkflow workflow_id) s2))"
      using assms
      by (auto simp: transfer_workflow_def sent split: outcome.splits if_splits)
    then show ?thesis
    proof (elim conjE disjE)
      assume "new_id = JNull" "s' = s2"
      with eff show ?thesis
        by (intro exI [of _ "[Http (PutTransfer workflow_id project_id) out]"]) simp
    next
      assume n: "new_id = JNull" and d: "s' = snd (send transport (DeleteWorkflow workflow_id) s2)"
      obtain out3 s3 where sent3: "send transport (DeleteWorkflow workflow_id) s2 = (out3, s3)"
        by (cases "send transport (DeleteWorkflow workflow_id) s2")
      from send_effect [OF sent3] eff n d sent3 show ?thesis
        by (intro exI [of _ "[Http (PutTransfer workflow_id project_id) out,
              Http (DeleteWorkflow workflow_id) out3]"]) simp
    qed
  qed
qed

lemma workflow_recorded_only_after_success:
  assumes "create_workflow transport base_url workflow_data project_id credential_mapping
             sf_id_mapping table supports_projects s = Inr (new_id, s')"
  shows "\<exists>added. trace s' = trace s @ added \<and>
     (((\<exists>p r. Http (PostWorkflow p) (Returned r) \<in> set added \<and> status_code r = 200) \<and>
       (supports_projects \<longrightarrow>
          (\<exists>i p r. Http (PutTransfer i p) (Returned r) \<in> set added \<and>
             (status_code r = 200 \<or> status_code r = 204)))) \<or>
      (new_id = JNull \<and> storage s' = storage s \<and>
       (\<forall>e\<in>set added. \<forall>u t k n. e \<noteq> LedgerWrite u t k n)))"
proof -
  from assms obtain payload where
    sub: "submit_workflow transport base_url project_id supports_projects payload s = (new_id, s')"
    by (auto simp: create_workflow_def split: sum.splits)
  obtain out s1 where sent: "send transport (PostWorkflow payload) s = (out, s1)"
    by (cases "send transport (PostWorkflow payload) s")
  note eff = send_effect [OF sent]
  let ?post = "Http (PostWorkflow payload) out"
  show ?thesis
  proof (cases "\<exists>r body. out = Returned r \<and> status_code r = 200 \<and>
      response_json r = Some (JObj body)")
    case False
    then have "new_id = JNull \<and> s' = s1"
      using sub
      by (auto simp: submit_workflow_def sent split: outcome.splits if_splits option.splits
          json.splits)
    with eff show ?thesis by (intro exI [of _ "[?post]"]) simp
  next
    case True
    then obtain r body where r: "out = Returned r" "status_code r = 200"
      "response_json r = Some (JObj body)" by blast
    define workflow_id where "workflow_id = dict_get body ''id'' JNull"
    define workflow_name where
      "workflow_name = (case payload of JObj p \<Rightarrow> dict_get p ''name'' JNull | _ \<Rightarrow> JNull)"
    show ?thesis
    proof (cases supports_projects)
      case False
      with sub r have "(new_id, s') = finish_workflow base_url workflow_id workflow_name s1"
        by (simp add: submit_workflow_def sent Let_def workflow_id_def workflow_name_def)
      with finish_workflow_effect [of base_url workflow_id workflow_name s1]
      obtain a2 where "trace s' = trace s1 @ a2" by (metis snd_conv)
      with eff(1) r False show ?thesis
        by (intro exI [of _ "?post # a2"]) auto
    next
      case True
      with sub r have
        "transfer_workflow transport base_url project_id workflow_id workflow_name s1 = (new_id, s')"
        by (simp add: submit_workflow_def sent Let_def workflow_id_def workflow_name_def)
      from transfer_workflow_effect [OF this]
      obtain a2 where a2: "trace s' = trace s1 @ a2"
        "(\<exists>r. Http (PutTransfer workflow_id project_id) (Returned r) \<in> set a2 \<and>
            (status_code r = 200 \<or> status_code r = 204)) \<or>
         (new_id = JNull \<and> storage s' = storage s1 \<and>
          (\<forall>e\<in>set a2. \<forall>u t k n. e \<noteq> LedgerWrite u t k n))"
        by blast
      from a2(2) show ?thesis
      proof
        assume "\<exists>r. Http (PutTransfer workflow_id project_id) (Returned r) \<in> set a2 \<and>
            (status_code r = 200 \<or> status_code r = 204)"
        with a2(1) eff(1) r show ?thesis
          by (intro exI [of _ "?post # a2"]) auto
      next
        assume "new_id = JNull \<and> storage s' = storage s1 \<and>
          (\<forall>e\<in>set a2. \<forall>u t k n. e \<noteq> LedgerWrite u t k n)"
        with a2(1) eff show ?thesis
          by (intro exI [of _ "?post # a2"]) auto
      qed
    qed
  qed
qed

section \<open>The claims\<close>

text \<open>
  Claim C1. For every acyclic dependency graph (a dict, so with distinct keys),
  \<open>get_workflow_order\<close> returns a sequence: it lists every key exactly once; every dependency
  that is itself a key of the graph is placed before each workflow that depends on it, while
  dependencies outside the key set take no part in the acyclicity hypothesis and constrain
  nothing; and the sequence is determined by the input alone, round by round: it is the
  concatenation of rounds, each round being exactly the workflows that are ready once the
  earlier rounds have been placed, in the insertion order of the input graph.
\<close>

theorem get_workflow_order_topological:
  assumes "distinct (map fst g)" and "acyclic (dep_rel g)"
  shows "\<exists>order rounds.
           get_workflow_order g = Inr order \<and>
           distinct order \<and> set order = fst ` set g \<and>
           (\<forall>(w, deps)\<in>set g. \<forall>d\<in>set deps. d \<in> fst ` set g \<longrightarrow> placed_before d w order) \<and>
           order = concat rounds \<and>
           (\<forall>i<length rounds. rounds ! i = ready_after g (set (concat (take i rounds))))"
proof -
  from order_loop_complete [OF assms(2), of "[]"]
  obtain order where run: "order_loop g [] = Inr order" by blast
  from order_loop_sound [OF run assms(1)]
  have sound: "distinct order" "set order = fst ` set g"
    "\<forall>(w, deps)\<in>set g. \<forall>d\<in>set deps. d \<in> fst ` set g \<longrightarrow> placed_before d w order"
    by auto
  have "g = filter (\<lambda>p. fst p \<notin> set []) g" by simp
  from order_loop_rounds [OF run this]
  obtain rounds where "order = concat rounds"
    "\<forall>i<length rounds. rounds ! i = ready_after g (set (concat (take i rounds)))"
    by auto
  with run sound show ?thesis
    unfolding get_workflow_order_def by blast
qed

theorem get_workflow_order_topological_witness:
  "distinct (map fst [(''W2'', [''W1'', ''X9'']), (''W3'', []), (''W1'', [])]) \<and>
   acyclic (dep_rel [(''W2'', [''W1'', ''X9'']), (''W3'', []), (''W1'', [])]) \<and>
   get_workflow_order [(''W2'', [''W1'', ''X9'']), (''W3'', []), (''W1'', [])]
     = Inr [''W3'', ''W1'', ''W2''] \<and>
   placed_before ''W1'' ''W2'' [''W3'', ''W1'', ''W2'']"
proof -
  let ?g = "[(''W2'', [''W1'', ''X9'']), (''W3'', []), (''W1'', [])]"
  have d: "distinct (map fst ?g)" by simp
  have "dep_rel ?g = {(''W1'', ''W2'')}"
    by (auto simp: dep_rel_def)
  moreover have "acyclic ({} :: (string \<times> string) set)"
    by (simp add: acyclic_def)
  ultimately have a: "acyclic (dep_rel ?g)"
    by (simp add: acyclic_insert)
  have run: "get_workflow_order ?g = Inr [''W3'', ''W1'', ''W2'']"
    by (simp add: get_workflow_order_def ready_ids_def Let_def)
  from get_workflow_order_topological [OF d a] run
  have "\<forall>(w, deps)\<in>set ?g. \<forall>d\<in>set deps. d \<in> fst ` set ?g \<longrightarrow>
          placed_before d w [''W3'', ''W1'', ''W2'']"
    by auto
  then have "placed_before ''W1'' ''W2'' [''W3'', ''W1'', ''W2'']" by simp
  with d a run show ?thesis by blast
qed



text \<open>
  Claim C3 fails on the code by a slip in the code. The declared name is cut at its first
  space, which removes every word after the first and not only the postfix: of
  \<open>My Postgres DB Prod\<close> only \<open>My\<close> is compared. The mapping key \<open>my_postgres_db\<close> is compared
  as it is and with its underscores read as spaces, and neither equals \<open>my\<close>, so no match is
  found and the entry keeps its old runtime id. The whole rewrite of a workflow with that
  credential entry leaves the id as it was.
\<close>

theorem postgres_name_misses_underscore_key:
  "base_name_of ''My Postgres DB Prod'' = ''My'' \<and>
   find_matching_cred [(''my_postgres_db'', JStr ''cred-1'')] ''My'' = JNull \<and>
   resolve_credential [(''my_postgres_db'', JStr ''cred-1'')]
     (JObj [(''id'', JStr ''old-id''), (''name'', JStr ''My Postgres DB Prod'')])
     = Inr (JObj [(''id'', JStr ''old-id''), (''name'', JStr ''My Postgres DB Prod'')]) \<and>
   create_workflow_payload None [(''my_postgres_db'', JStr ''cred-1'')] []
     (JObj [(''id'', JStr ''W3''), (''name'', JStr ''Report''),
            (''nodes'', JArr [JObj [(''name'', JStr ''Query''),
                                    (''type'', JStr ''n8n-nodes-base.postgres''),
                                    (''credentials'', JObj [(''postgres'',
                                        JObj [(''id'', JStr ''old-id''),
                                              (''name'', JStr ''My Postgres DB Prod'')])])]]),
            (''connections'', JObj [])])
     = Inr (JObj [(''name'', JStr ''Report''),
                  (''nodes'', JArr [JObj [(''name'', JStr ''Query''),
                                          (''type'', JStr ''n8n-nodes-base.postgres''),
                                          (''credentials'', JObj [(''postgres'',
                                              JObj [(''id'', JStr ''old-id''),
                                                    (''name'', JStr ''My Postgres DB Prod'')])])]]),
                  (''connections'', JObj []),
                  (''settings'', JObj [(''saveExecutionProgress'', JBool True),
                                       (''saveManualExecutions'', JBool True),
                                       (''saveDataErrorExecution'', JStr ''all''),
                                       (''executionTimeout'', JInt 3600),
                                       (''errorWorkflow'', JStr [])])])"
  by code_simp




text \<open>
  Claim C5 fails on the code by a slip in the code. When the transfer is answered with a status
  other than 200 or 204 and a body that is not JSON (the error page of a gateway, or of a
  target that has no transfer endpoint), the line that formats the error details calls
  \<^verbatim>\<open>transfer_response.json()\<close>, which raises; the \<^verbatim>\<open>except Exception\<close> of the function returns
  \<^verbatim>\<open>None\<close> and the compensating deletion is never sent: the workflow stays on the target,
  untransferred and absent from the ledger. With an empty body the same status leads to the
  deletion, which is what the claim describes.
\<close>

theorem transfer_error_page_skips_rollback:
  "map_sum id observe
     (create_workflow (transfer_fails_with 502 ''Bad Gateway'') ''http://target'' scenario_W1
        (Some ''p1'') [] [] None True (fresh_sys None))
   = Inr (JNull,
          [PostWorkflow (JObj [(''name'', JStr ''First''),
             (''nodes'', JArr [JObj [(''name'', JStr ''Start''),
                                     (''type'', JStr ''n8n-nodes-base.manualTrigger'')]]),
             (''connections'', JObj []),
             (''settings'', JObj [(''saveExecutionProgress'', JBool True),
                                  (''saveManualExecutions'', JBool True),
                                  (''saveDataErrorExecution'', JStr ''all''),
                                  (''executionTimeout'', JInt 3600),
                                  (''errorWorkflow'', JStr [])])]),
           PutTransfer (JStr ''wf9'') (Some ''p1'')],
          None) \<and>
   map_sum id observe
     (create_workflow (transfer_fails_with 502 []) ''http://target'' scenario_W1
        (Some ''p1'') [] [] None True (fresh_sys None))
   = Inr (JNull,
          [PostWorkflow (JObj [(''name'', JStr ''First''),
             (''nodes'', JArr [JObj [(''name'', JStr ''Start''),
                                     (''type'', JStr ''n8n-nodes-base.manualTrigger'')]]),
             (''connections'', JObj []),
             (''settings'', JObj [(''saveExecutionProgress'', JBool True),
                                  (''saveManualExecutions'', JBool True),
                                  (''saveDataErrorExecution'', JStr ''all''),
                                  (''executionTimeout'', JInt 3600),
                                  (''errorWorkflow'', JStr [])])]),
           PutTransfer (JStr ''wf9'') (Some ''p1''),
           DeleteWorkflow (JStr ''wf9'')],
          None)"
  by code_simp




text \<open>
  Claim C7, as stated, fails: settings normalization runs on the definition that the
  literal-replacement step produced, so an explicit settings value that contains a key of the
  replacement table reaches the payload replaced. Here the table of the development environment
  maps \<open>wf-prod\<close> to \<open>wf-dev\<close>, the input definition sets \<open>errorWorkflow\<close> to \<open>wf-prod\<close>, and
  the payload carries \<open>wf-dev\<close>.
\<close>

theorem explicit_setting_replaced_counterexample:
  "get_environment_replacements
     \<lparr>cfg_environments = [],
      cfg_replacements = [(''error_flow'', [(''production'', ''wf-prod''),
                                            (''development'', ''wf-dev'')])]\<rparr>
     ''development'' = [(''wf-prod'', ''wf-dev'')] \<and>
   settings_value ''errorWorkflow''
     (JObj [(''id'', JStr ''W7''), (''name'', JStr ''Sync''), (''nodes'', JArr []),
            (''connections'', JObj []),
            (''settings'', JObj [(''errorWorkflow'', JStr ''wf-prod'')])])
     = Some (JStr ''wf-prod'') \<and>
   create_workflow_payload (Some [(''wf-prod'', ''wf-dev'')]) [] []
     (JObj [(''id'', JStr ''W7''), (''name'', JStr ''Sync''), (''nodes'', JArr []),
            (''connections'', JObj []),
            (''settings'', JObj [(''errorWorkflow'', JStr ''wf-prod'')])])
     = Inr (JObj [(''name'', JStr ''Sync''), (''nodes'', JArr []), (''connections'', JObj []),
                  (''settings'', JObj [(''saveExecutionProgress'', JBool True),
                                       (''saveManualExecutions'', JBool True),
                                       (''saveDataErrorExecution'', JStr ''all''),
                                       (''executionTimeout'', JInt 3600),
                                       (''errorWorkflow'', JStr ''wf-dev'')])])"
  by code_simp

text \<open>
  Claim C7, amended. Whenever rewrite produces a payload, each of the five settings keys has in
  the payload the value it has in the settings of the definition as the literal-replacement
  step left it, and its default (true, true, \<open>all\<close>, 3600, the empty string) only when it is
  absent there. When no key of the replacement table occurs in the serialized input definition
  (or no table could be read), that definition is the input definition itself, so an explicit
  value of the input appears unchanged.
\<close>

theorem settings_preserved_after_replacement:
  assumes "create_workflow_payload table credential_mapping sf_id_mapping workflow_data = Inr p"
    and "k \<in> set setting_keys"
  shows "\<exists>replaced.
           replacement_step table workflow_data = Inr replaced \<and>
           settings_value k p =
             Some (case settings_value k replaced of Some v \<Rightarrow> v | None \<Rightarrow> default_setting k) \<and>
           (wf_json workflow_data \<longrightarrow>
            (\<forall>replacements. table = Some replacements \<longrightarrow>
               (\<forall>(old_value, new_value)\<in>set replacements.
                  \<not> sublist old_value (json_dumps workflow_data))) \<longrightarrow>
            replaced = workflow_data)"
proof -
  from assms(1) obtain replaced where step: "replacement_step table workflow_data = Inr replaced"
    and rw: "rewrite_payload credential_mapping sf_id_mapping replaced = Inr p"
    unfolding create_workflow_payload_def by (auto split: sum.splits)
  from rw obtain payload settings name nodes connections where
    r: "replaced = JObj payload" and s: "dict_get payload ''settings'' (JObj []) = JObj settings"
    and p: "p = JObj [(''name'', name), (''nodes'', nodes), (''connections'', connections),
               (''settings'', defaulted settings)]"
    by (rule rewrite_payload_settings)
  have before: "settings_value k replaced = map_of settings k"
    by (simp add: settings_value_def r s)
  obtain out where out: "defaulted settings = JObj out" by (simp add: defaulted_def)
  have "settings_value k p = map_of out k"
    by (simp add: settings_value_def p dict_get_def out)
  also have "\<dots> = Some (case map_of settings k of Some v \<Rightarrow> v | None \<Rightarrow> default_setting k)"
    using settings_value_defaulted [OF assms(2), of settings] out by simp
  finally have val: "settings_value k p =
      Some (case settings_value k replaced of Some v \<Rightarrow> v | None \<Rightarrow> default_setting k)"
    by (simp add: before)
  have "replaced = workflow_data"
    if wf: "wf_json workflow_data"
      and absent: "\<forall>replacements. table = Some replacements \<longrightarrow>
               (\<forall>(old_value, new_value)\<in>set replacements.
                  \<not> sublist old_value (json_dumps workflow_data))"
  proof (cases table)
    case None
    with step replacement_step_no_table [OF wf] show ?thesis by simp
  next
    case (Some replacements)
    with absent have "\<forall>(old_value, new_value)\<in>set replacements.
                  \<not> sublist old_value (json_dumps workflow_data)" by blast
    from replacement_step_absent [OF wf this] step Some show ?thesis by simp
  qed
  with step val show ?thesis by blast
qed

theorem settings_preserved_after_replacement_witness:
  "create_workflow_payload (Some [(''api.example.com'', ''dev.example.com'')]) [] []
     (JObj [(''name'', JStr ''Sync''), (''nodes'', JArr []), (''connections'', JObj []),
            (''settings'', JObj [(''executionTimeout'', JInt 5)])])
     = Inr (JObj [(''name'', JStr ''Sync''), (''nodes'', JArr []), (''connections'', JObj []),
                  (''settings'', JObj [(''saveExecutionProgress'', JBool True),
                                       (''saveManualExecutions'', JBool True),
                                       (''saveDataErrorExecution'', JStr ''all''),
                                       (''executionTimeout'', JInt 5),
                                       (''errorWorkflow'', JStr [])])]) \<and>
   ''executionTimeout'' \<in> set setting_keys \<and>
   settings_value ''executionTimeout''
     (JObj [(''name'', JStr ''Sync''), (''nodes'', JArr []), (''connections'', JObj []),
                  (''settings'', JObj [(''saveExecutionProgress'', JBool True),
                                       (''saveManualExecutions'', JBool True),
                                       (''saveDataErrorExecution'', JStr ''all''),
                                       (''executionTimeout'', JInt 5),
                                       (''errorWorkflow'', JStr [])])])
     = Some (JInt 5)"
proof -
  let ?d = "JObj [(''name'', JStr ''Sync''), (''nodes'', JArr []), (''connections'', JObj []),
            (''settings'', JObj [(''executionTimeout'', JInt 5)])]"
  let ?p = "JObj [(''name'', JStr ''Sync''), (''nodes'', JArr []), (''connections'', JObj []),
                  (''settings'', JObj [(''saveExecutionProgress'', JBool True),
                                       (''saveManualExecutions'', JBool True),
                                       (''saveDataErrorExecution'', JStr ''all''),
                                       (''executionTimeout'', JInt 5),
                                       (''errorWorkflow'', JStr [])])]"
  have run: "create_workflow_payload (Some [(''api.example.com'', ''dev.example.com'')]) [] [] ?d
      = Inr ?p"
    by code_simp
  have key: "''executionTimeout'' \<in> set setting_keys" by (simp add: setting_keys_def)
  have wf: "wf_json ?d" by simp
  have absent: "\<not> sublist ''api.example.com'' (json_dumps ?d)" by code_simp
  from settings_preserved_after_replacement [OF run key]
  obtain replaced where
    val: "settings_value ''executionTimeout'' ?p =
       Some (case settings_value ''executionTimeout'' replaced of
               Some v \<Rightarrow> v | None \<Rightarrow> default_setting ''executionTimeout'')"
    and same: "wf_json ?d \<longrightarrow>
       (\<forall>replacements. Some [(''api.example.com'', ''dev.example.com'')] = Some replacements \<longrightarrow>
          (\<forall>(old_value, new_value)\<in>set replacements. \<not> sublist old_value (json_dumps ?d))) \<longrightarrow>
       replaced = ?d"
    by blast
  from same wf absent have "replaced = ?d" by simp
  with val have "settings_value ''executionTimeout'' ?p = Some (JInt 5)"
    by (simp add: settings_value_def dict_get_def)
  with run key show ?thesis by blast
qed

text \<open>
  Claim C8. The literal-replacement step of rewrite is the identity on every workflow
  definition (a JSON document whose objects have distinct keys) whose serialized form contains
  no key of the replacement table as a substring: every replacement leaves the text untouched
  and parsing gives the definition back.
\<close>

theorem replacement_step_identity:
  assumes "wf_json workflow_data"
    and "\<forall>(old_value, new_value)\<in>set table. \<not> sublist old_value (json_dumps workflow_data)"
  shows "replacement_step (Some table) workflow_data = Inr workflow_data"
  using assms by (rule replacement_step_absent)

theorem replacement_step_identity_witness:
  "wf_json (JObj [(''name'', JStr ''Sync''), (''nodes'', JArr []), (''connections'', JObj [])]) \<and>
   get_environment_replacements
     \<lparr>cfg_environments = [],
      cfg_replacements = [(''host'', [(''production'', ''api.example.com''),
                                      (''development'', ''dev.example.com'')])]\<rparr>
     ''development'' = [(''api.example.com'', ''dev.example.com'')] \<and>
   \<not> sublist ''api.example.com''
       (json_dumps (JObj [(''name'', JStr ''Sync''), (''nodes'', JArr []), (''connections'', JObj [])])) \<and>
   replacement_step (Some [(''api.example.com'', ''dev.example.com'')])
     (JObj [(''name'', JStr ''Sync''), (''nodes'', JArr []), (''connections'', JObj [])])
     = Inr (JObj [(''name'', JStr ''Sync''), (''nodes'', JArr []), (''connections'', JObj [])])"
proof -
  let ?d = "JObj [(''name'', JStr ''Sync''), (''nodes'', JArr []), (''connections'', JObj [])]"
  have wf: "wf_json ?d" by simp
  have table: "get_environment_replacements
     \<lparr>cfg_environments = [],
      cfg_replacements = [(''host'', [(''production'', ''api.example.com''),
                                      (''development'', ''dev.example.com'')])]\<rparr>
     ''development'' = [(''api.example.com'', ''dev.example.com'')]"
    by (simp add: get_environment_replacements_def add_group_replacements_def)
  have absent: "\<not> sublist ''api.example.com'' (json_dumps ?d)" by code_simp
  then have "\<forall>(old_value, new_value)\<in>set [(''api.example.com'', ''dev.example.com'')].
      \<not> sublist old_value (json_dumps ?d)" by simp
  from replacement_step_identity [OF wf this] wf table absent show ?thesis by blast
qed

text \<open>
  Claim C9. For every sequence of record and forget operations on the resource mapping store,
  starting from an absent or empty document: \<open>listFor\<close> of an instance reports an id under a
  resource type only if that id was recorded against that very instance and type; after a record
  followed by a forget of the same instance, type and id, \<open>listFor\<close> no longer reports the id;
  and \<open>listFor\<close> of an instance nothing was recorded against is the three empty sub-maps
  (workflows, credentials, projects), not an error.
\<close>

theorem resource_store_listing:
  assumes "start = None \<or> start = Some []"
  shows "(listed u t i (run_store_ops ops start) \<longrightarrow> (\<exists>n. Record u t i n \<in> set ops)) \<and>
         \<not> listed u t i (run_store_ops (ops @ [Record u t i n, Forget u t i]) start) \<and>
         ((\<forall>t' i' n'. Record u t' i' n' \<notin> set ops) \<longrightarrow>
            get_instance_resources u (run_store_ops ops start)
              = [(''workflows'', []), (''credentials'', []), (''projects'', [])])"
proof (intro conjI impI)
  assume "listed u t i (run_store_ops ops start)"
  with recorded_only_run [OF assms, of ops] show "\<exists>n. Record u t i n \<in> set ops"
    by (rule listed_recorded)
next
  have "run_store_ops (ops @ [Record u t i n, Forget u t i]) start
      = remove_resource_mapping u t i (run_store_ops (ops @ [Record u t i n]) start)"
    by (simp add: run_store_ops_def)
  then show "\<not> listed u t i (run_store_ops (ops @ [Record u t i n, Forget u t i]) start)"
    by (simp add: not_listed_after_remove)
next
  assume "\<forall>t' i' n'. Record u t' i' n' \<notin> set ops"
  with untouched_instance_absent [OF assms, of u ops]
  show "get_instance_resources u (run_store_ops ops start)
      = [(''workflows'', []), (''credentials'', []), (''projects'', [])]"
    by (simp add: empty_resources_def)
qed

theorem resource_store_listing_witness:
  "listed ''http://a'' ''workflows'' ''w1''
     (run_store_ops [Record ''http://a'' ''workflows'' ''w1'' (JStr ''One''),
                     Record ''http://b'' ''credentials'' ''c1'' (JStr ''Key'')] None) \<and>
   \<not> listed ''http://b'' ''workflows'' ''w1''
     (run_store_ops [Record ''http://a'' ''workflows'' ''w1'' (JStr ''One''),
                     Record ''http://b'' ''credentials'' ''c1'' (JStr ''Key'')] None) \<and>
   get_instance_resources ''http://c''
     (run_store_ops [Record ''http://a'' ''workflows'' ''w1'' (JStr ''One''),
                     Record ''http://b'' ''credentials'' ''c1'' (JStr ''Key'')] None)
     = [(''workflows'', []), (''credentials'', []), (''projects'', [])]"
proof -
  let ?ops = "[Record ''http://a'' ''workflows'' ''w1'' (JStr ''One''),
               Record ''http://b'' ''credentials'' ''c1'' (JStr ''Key'')]"
  have start: "(None :: ledger option) = None \<or> (None :: ledger option) = Some []" by simp
  have yes: "listed ''http://a'' ''workflows'' ''w1'' (run_store_ops ?ops None)"
    by (simp add: run_store_ops_def save_resource_mapping_def save_attempt_def Let_def
        empty_resources_def listed_def get_instance_resources_def)
  have "\<forall>n. Record ''http://b'' ''workflows'' ''w1'' n \<notin> set ?ops" by simp
  with resource_store_listing [OF start, of "''http://b''" "''workflows''" "''w1''" ?ops]
  have no: "\<not> listed ''http://b'' ''workflows'' ''w1'' (run_store_ops ?ops None)" by blast
  have "\<forall>t' i' n'. Record ''http://c'' t' i' n' \<notin> set ?ops" by simp
  with resource_store_listing [OF start, of "''http://c''" _ _ ?ops]
  have "get_instance_resources ''http://c'' (run_store_ops ?ops None)
      = [(''workflows'', []), (''credentials'', []), (''projects'', [])]" by blast
  with yes no show ?thesis by blast
qed

text \<open>
  Claim C10. Whenever rewrite produces a submission payload, its top level is exactly
  \<open>name\<close>, \<open>nodes\<close>, \<open>connections\<close> and \<open>settings\<close>, and its settings are exactly the five keys
  \<open>saveExecutionProgress\<close>, \<open>saveManualExecutions\<close>, \<open>saveDataErrorExecution\<close>,
  \<open>executionTimeout\<close> and \<open>errorWorkflow\<close>: any other key of the input definition, at the top
  level or in its settings, is absent from the payload.
\<close>

theorem payload_has_exactly_the_fixed_keys:
  assumes "create_workflow_payload table credential_mapping sf_id_mapping workflow_data = Inr p"
  shows "\<exists>name nodes connections progress manual data_error timeout error_workflow.
           p = JObj [(''name'', name), (''nodes'', nodes), (''connections'', connections),
                     (''settings'', JObj [(''saveExecutionProgress'', progress),
                                          (''saveManualExecutions'', manual),
                                          (''saveDataErrorExecution'', data_error),
                                          (''executionTimeout'', timeout),
                                          (''errorWorkflow'', error_workflow)])]"
proof -
  from assms obtain workflow_payload where
    "rewrite_payload credential_mapping sf_id_mapping workflow_payload = Inr p"
    unfolding create_workflow_payload_def by (auto split: sum.splits)
  then obtain settings name nodes connections where
    "p = JObj [(''name'', name), (''nodes'', nodes), (''connections'', connections),
               (''settings'', defaulted settings)]"
    by (rule rewrite_payload_settings)
  then show ?thesis unfolding defaulted_def by blast
qed

theorem payload_has_exactly_the_fixed_keys_witness:
  "create_workflow_payload None [] []
     (JObj [(''id'', JStr ''W7''), (''name'', JStr ''Sync''), (''active'', JBool True),
            (''nodes'', JArr []), (''connections'', JObj []),
            (''settings'', JObj [(''timezone'', JStr ''UTC''), (''callerPolicy'', JStr ''any''),
                                 (''executionTimeout'', JInt 5)])])
   = Inr (JObj [(''name'', JStr ''Sync''), (''nodes'', JArr []), (''connections'', JObj []),
                (''settings'', JObj [(''saveExecutionProgress'', JBool True),
                                     (''saveManualExecutions'', JBool True),
                                     (''saveDataErrorExecution'', JStr ''all''),
                                     (''executionTimeout'', JInt 5),
                                     (''errorWorkflow'', JStr [])])])"
proof -
  let ?d = "JObj [(''id'', JStr ''W7''), (''name'', JStr ''Sync''), (''active'', JBool True),
            (''nodes'', JArr []), (''connections'', JObj []),
            (''settings'', JObj [(''timezone'', JStr ''UTC''), (''callerPolicy'', JStr ''any''),
                                 (''executionTimeout'', JInt 5)])]"
  let ?p = "JObj [(''name'', JStr ''Sync''), (''nodes'', JArr []), (''connections'', JObj []),
                (''settings'', JObj [(''saveExecutionProgress'', JBool True),
                                     (''saveManualExecutions'', JBool True),
                                     (''saveDataErrorExecution'', JStr ''all''),
                                     (''executionTimeout'', JInt 5),
                                     (''errorWorkflow'', JStr [])])]"
  have run: "create_workflow_payload None [] [] ?d = Inr ?p"
    by (simp add: create_workflow_payload_def replacement_step_no_table rewrite_payload_def
        normalize_settings_def rewrite_nodes_def create_payload_def dict_get_def has_key_def)
  from payload_has_exactly_the_fixed_keys [OF run] run show ?thesis by simp
qed

end
